theory Spec2Isabelle
  imports Main "HOL-Library.Sublist" "HOL-Library.Monad_Syntax"
begin

section \<open>Go strings and the library functions used by the parser\<close>

text \<open>
  A Go string is a sequence of bytes, modelled as \<^typ>\<open>string\<close> (a list of 8-bit
  characters).  Text that is not ASCII appears as its UTF-8 bytes.
\<close>

subsection \<open>strings.TrimSpace\<close>

text \<open>
  \<open>strings.TrimSpace\<close> removes every leading and trailing rune for which
  \<open>unicode.IsSpace\<close> holds.  These are the six ASCII characters tab, line feed,
  vertical tab, form feed, carriage return and space, and the code points U+0085, U+00A0,
  U+1680, U+2000 to U+200A, U+2028, U+2029, U+202F, U+205F and U+3000.  The list below
  holds their UTF-8 encodings.  A string starts (ends) with a white space rune exactly when
  one of these byte sequences is a prefix (suffix) of it, because Go decodes only
  shortest-form UTF-8 and treats every other byte as the one-byte rune U+FFFD.
\<close>

definition space_encodings :: "string list" where
  "space_encodings =
     [[CHR 0x09], [CHR 0x0A], [CHR 0x0B], [CHR 0x0C], [CHR 0x0D], [CHR 0x20],
      [CHR 0xC2, CHR 0x85], [CHR 0xC2, CHR 0xA0],
      [CHR 0xE1, CHR 0x9A, CHR 0x80],
      [CHR 0xE2, CHR 0x80, CHR 0x80], [CHR 0xE2, CHR 0x80, CHR 0x81],
      [CHR 0xE2, CHR 0x80, CHR 0x82], [CHR 0xE2, CHR 0x80, CHR 0x83],
      [CHR 0xE2, CHR 0x80, CHR 0x84], [CHR 0xE2, CHR 0x80, CHR 0x85],
      [CHR 0xE2, CHR 0x80, CHR 0x86], [CHR 0xE2, CHR 0x80, CHR 0x87],
      [CHR 0xE2, CHR 0x80, CHR 0x88], [CHR 0xE2, CHR 0x80, CHR 0x89],
      [CHR 0xE2, CHR 0x80, CHR 0x8A],
      [CHR 0xE2, CHR 0x80, CHR 0xA8], [CHR 0xE2, CHR 0x80, CHR 0xA9],
      [CHR 0xE2, CHR 0x80, CHR 0xAF],
      [CHR 0xE2, CHR 0x81, CHR 0x9F],
      [CHR 0xE3, CHR 0x80, CHR 0x80]]"

definition leading_space :: "string \<Rightarrow> nat" where
  "leading_space s =
     (case find (\<lambda>e. prefix e s) space_encodings of None \<Rightarrow> 0 | Some e \<Rightarrow> length e)"

definition trailing_space :: "string \<Rightarrow> nat" where
  "trailing_space s =
     (case find (\<lambda>e. suffix e s) space_encodings of None \<Rightarrow> 0 | Some e \<Rightarrow> length e)"

function TrimLeft :: "string \<Rightarrow> string" where
  "TrimLeft s = (if leading_space s = 0 then s else TrimLeft (drop (leading_space s) s))"
  by pat_completeness auto
termination
proof (relation "measure length")
  show "wf (measure length)" by simp
next
  fix s :: string
  assume "leading_space s \<noteq> 0"
  moreover have "leading_space s \<le> length s"
    by (auto simp: leading_space_def find_Some_iff prefix_length_le split: option.splits)
  ultimately show "(drop (leading_space s) s, s) \<in> measure length" by simp
qed

function TrimRight :: "string \<Rightarrow> string" where
  "TrimRight s =
     (if trailing_space s = 0 then s else TrimRight (take (length s - trailing_space s) s))"
  by pat_completeness auto
termination
proof (relation "measure length")
  show "wf (measure length)" by simp
next
  fix s :: string
  assume "trailing_space s \<noteq> 0"
  moreover have "trailing_space s \<le> length s"
    by (auto simp: trailing_space_def find_Some_iff suffix_length_le split: option.splits)
  ultimately show "(take (length s - trailing_space s) s, s) \<in> measure length" by simp
qed

declare TrimLeft.simps [simp del] TrimRight.simps [simp del]

definition TrimSpace :: "string \<Rightarrow> string" where
  "TrimSpace s = TrimRight (TrimLeft s)"

subsection \<open>strings.Split with a one-byte separator\<close>

text \<open>
  \<open>strings.Split(s, ":")\<close> returns the substrings between the separators; a string
  without separator, the empty string included, gives a single field.
\<close>

fun Split :: "string \<Rightarrow> char \<Rightarrow> string list" where
  "Split [] sep = [[]]"
| "Split (c # cs) sep =
     (if c = sep then [] # Split cs sep
      else (case Split cs sep of [] \<Rightarrow> [[c]] | p # ps \<Rightarrow> (c # p) # ps))"

subsection \<open>The regular expressions of the parser\<close>

text \<open>
  The four patterns of \<open>ParseProxy\<close> are sequences of literals, capturing alternations of
  literals, capturing repetitions \<open>(.+)\<close> and \<open>(\d+)\<close>, optional characters and the end
  anchor.  All four start with \<open>^\<close>, so a match starts at offset 0.  Go's \<open>regexp\<close>
  returns the match that a backtracking search finds first: alternatives are tried from
  left to right, and \<open>+\<close> and \<open>?\<close> are greedy.  Without flags \<open>.\<close> matches every
  character but line feed, \<open>\d\<close> the ASCII digits, and \<open>$\<close> only the end of the text.
  The patterns are constants that compile, so \<open>regexp.MustCompile\<close> does not panic.
  Every literal of the patterns is ASCII, so matching bytes and matching runes agree.
\<close>

datatype cls = AnyChar | Digit

fun in_cls :: "cls \<Rightarrow> char \<Rightarrow> bool" where
  "in_cls AnyChar c = (c \<noteq> CHR 0x0A)"
| "in_cls Digit c = (c \<in> set ''0123456789'')"

datatype item = Lit string | CapAlt "string list" | CapPlus cls | OptChar char | Eos

fun first_some :: "('a \<Rightarrow> 'b option) \<Rightarrow> 'a list \<Rightarrow> 'b option" where
  "first_some f [] = None"
| "first_some f (x # xs) = (case f x of Some y \<Rightarrow> Some y | None \<Rightarrow> first_some f xs)"

definition add_capture :: "string \<Rightarrow> (string list \<times> string) option \<Rightarrow> (string list \<times> string) option" where
  "add_capture c m = map_option (\<lambda>(cs, r). (c # cs, r)) m"

text \<open>
  \<open>rmatch p s\<close> matches the pattern \<open>p\<close> at the start of \<open>s\<close> and returns the captured
  groups and the unmatched rest of \<open>s\<close>.
\<close>

primrec rmatch :: "item list \<Rightarrow> string \<Rightarrow> (string list \<times> string) option" where
  "rmatch [] = (\<lambda>s. Some ([], s))"
| "rmatch (i # p) = (\<lambda>s.
     case i of
       Lit l \<Rightarrow> if prefix l s then rmatch p (drop (length l) s) else None
     | CapAlt ls \<Rightarrow>
         first_some (\<lambda>l. if prefix l s then add_capture l (rmatch p (drop (length l) s)) else None) ls
     | CapPlus c \<Rightarrow>
         first_some (\<lambda>k. add_capture (take k s) (rmatch p (drop k s)))
           (rev [1 ..< Suc (length (takeWhile (in_cls c) s))])
     | OptChar c \<Rightarrow>
         (case (if prefix [c] s then rmatch p (drop 1 s) else None) of
            Some m \<Rightarrow> Some m
          | None \<Rightarrow> rmatch p s)
     | Eos \<Rightarrow> if s = [] then rmatch p s else None)"

text \<open>
  \<open>FindStringSubmatch\<close> returns the whole match followed by the groups, or nothing.
  \<open>ReplaceAllString\<close> is used with an anchored pattern: only the match at offset 0 is
  replaced.
\<close>

definition FindStringSubmatch :: "item list \<Rightarrow> string \<Rightarrow> string list option" where
  "FindStringSubmatch p s =
     (case rmatch p s of
        None \<Rightarrow> None
      | Some (cs, r) \<Rightarrow> Some (take (length s - length r) s # cs))"

definition ReplaceAllString :: "item list \<Rightarrow> string \<Rightarrow> string \<Rightarrow> string" where
  "ReplaceAllString p s repl =
     (case rmatch p s of None \<Rightarrow> s | Some (cs, r) \<Rightarrow> repl @ r)"

definition protocols :: "string list" where
  "protocols = [''http'', ''https'', ''socks5'']"

definition userPassHostPattern :: "item list" where
  "userPassHostPattern =
     [CapPlus AnyChar, Lit '':'', CapPlus AnyChar, Lit ''@'', CapPlus AnyChar, Lit '':'',
      CapPlus Digit, Eos]"

definition protocolWithAuthPattern :: "item list" where
  "protocolWithAuthPattern = CapAlt protocols # Lit ''://'' # userPassHostPattern"

definition protocolNoAuthPattern :: "item list" where
  "protocolNoAuthPattern =
     [CapAlt protocols, Lit ''://'', CapPlus AnyChar, Lit '':'', CapPlus Digit, Eos]"

definition protocolPrefix :: "item list" where
  "protocolPrefix = [CapAlt protocols, Lit '':'', OptChar CHR ''/'', OptChar CHR ''/'']"

section \<open>ParseProxy and ConvertProxyFormat\<close>

text \<open>
  Indexing a Go slice out of range panics.  \<open>at\<close> is the checked read: \<open>None\<close> is the
  panic, and \<open>ParseProxy\<close> returns \<open>None\<close> where the Go function would panic.
\<close>

definition at :: "'a list \<Rightarrow> nat \<Rightarrow> 'a option" where
  "at xs i = (if i < length xs then Some (xs ! i) else None)"

record descriptor =
  host :: string
  port :: string
  user :: string
  password :: string
  protocol :: string

definition empty_descriptor :: descriptor where
  "empty_descriptor = \<lparr>host = '''', port = '''', user = '''', password = '''', protocol = ''''\<rparr>"

definition default_protocol :: "descriptor \<Rightarrow> descriptor" where
  "default_protocol d = (if protocol d = '''' then d\<lparr>protocol := ''http''\<rparr> else d)"

text \<open>
  The third pattern: a protocol keyword followed by a colon and up to two slashes is cut
  off the front, and the keyword is remembered.  The result is the pair of \<open>protocol\<close>
  and the new value of \<open>proxy\<close>.
\<close>

definition strip_protocol :: "string \<Rightarrow> (string \<times> string) option" where
  "strip_protocol proxy =
     (case FindStringSubmatch protocolPrefix proxy of
        Some match \<Rightarrow> do {
          pr \<leftarrow> at match 1;
          Some (pr, ReplaceAllString protocolPrefix proxy '''') }
      | None \<Rightarrow> Some ('''', proxy))"

text \<open>
  The \<open>switch len(parts)\<close> statement and the default of the protocol after it; \<open>pr\<close>
  is the value of \<open>protocol\<close> when the switch is reached.
\<close>

definition switch_parts :: "string \<Rightarrow> string list \<Rightarrow> descriptor option" where
  "switch_parts pr parts =
     (if length parts = 4 then do {
        h \<leftarrow> at parts 0; po \<leftarrow> at parts 1; u \<leftarrow> at parts 2; pw \<leftarrow> at parts 3;
        Some (default_protocol
          \<lparr>host = h, port = po, user = u, password = pw, protocol = pr\<rparr>) }
      else if length parts = 3 then do {
        p0 \<leftarrow> at parts 0;
        if p0 = ''http'' \<or> p0 = ''https'' \<or> p0 = ''socks5'' then do {
          pr' \<leftarrow> at parts 0; h \<leftarrow> at parts 1; po \<leftarrow> at parts 2;
          Some (default_protocol
            \<lparr>host = h, port = po, user = '''', password = '''', protocol = pr'\<rparr>) }
        else do {
          h \<leftarrow> at parts 0; po \<leftarrow> at parts 1; u \<leftarrow> at parts 2;
          Some (default_protocol
            \<lparr>host = h, port = po, user = u, password = '''', protocol = pr\<rparr>) } }
      else if length parts = 2 then do {
        h \<leftarrow> at parts 0; po \<leftarrow> at parts 1;
        Some (default_protocol
          \<lparr>host = h, port = po, user = '''', password = '''', protocol = pr\<rparr>) }
      else Some empty_descriptor)"

definition ParseProxy :: "string \<Rightarrow> descriptor option" where
  "ParseProxy proxy0 =
    (let proxy = TrimSpace proxy0 in
     case FindStringSubmatch protocolWithAuthPattern proxy of
       Some match \<Rightarrow> do {
         pr \<leftarrow> at match 1; u \<leftarrow> at match 2; pw \<leftarrow> at match 3;
         h \<leftarrow> at match 4; po \<leftarrow> at match 5;
         Some \<lparr>host = h, port = po, user = u, password = pw, protocol = pr\<rparr> }
     | None \<Rightarrow>
    (case FindStringSubmatch protocolNoAuthPattern proxy of
       Some match \<Rightarrow> do {
         pr \<leftarrow> at match 1; h \<leftarrow> at match 2; po \<leftarrow> at match 3;
         Some \<lparr>host = h, port = po, user = '''', password = '''', protocol = pr\<rparr> }
     | None \<Rightarrow> do {
         (pr, proxy) \<leftarrow> strip_protocol proxy;
         (case FindStringSubmatch userPassHostPattern proxy of
            Some match \<Rightarrow> do {
              u \<leftarrow> at match 1; pw \<leftarrow> at match 2; h \<leftarrow> at match 3; po \<leftarrow> at match 4;
              Some \<lparr>host = h, port = po, user = u, password = pw, protocol = pr\<rparr> }
          | None \<Rightarrow> switch_parts pr (Split proxy CHR '':'')) }))"

text \<open>
  \<open>proxyConverter.ConvertProxyFormat\<close>: the canonical URI of a parsed proxy, or the empty
  string when host or port is missing.
\<close>

definition format_descriptor :: "descriptor \<Rightarrow> string" where
  "format_descriptor d =
     (if host d = '''' \<or> port d = '''' then ''''
      else if user d \<noteq> '''' \<and> password d \<noteq> ''''
        then protocol d @ ''://'' @ user d @ '':'' @ password d @ ''@'' @ host d @ '':'' @ port d
      else protocol d @ ''://'' @ host d @ '':'' @ port d)"

definition ConvertProxyFormat :: "string \<Rightarrow> string option" where
  "ConvertProxyFormat proxy = map_option format_descriptor (ParseProxy proxy)"

section \<open>The outside world\<close>

text \<open>
  Network, files, standard input and the process environment are reached through the
  operations of an \<open>env\<close>, which thread a world state \<open>'w\<close>: the same request may be
  answered differently at different times.  \<open>url.Parse\<close>, \<open>http.NewRequestWithContext\<close>
  and \<open>json.Unmarshal\<close> are pure library functions and are parameters as well.  Time-outs
  and cancelled contexts are failures of \<open>client_Do\<close>.  The calls of the logger only print
  and are left out.
\<close>

datatype body = ReadError | Body string

datatype http_outcome = DoError | Response nat body

text \<open>
  The result of \<open>json.Unmarshal\<close> into the anonymous structs: for each field whether the
  document set it, and to what.  A field that is not set keeps Go's zero value.
\<close>

record ipqs_fields =
  Success :: "bool option"
  Message :: "string option"
  FraudScore :: "int option"

datatype file_scan = OpenError | Lines "string list" bool

record 'w env =
  url_Parse_ok :: "string \<Rightarrow> bool"
  NewRequest_ok :: "string \<Rightarrow> bool"
  client_Do :: "'w \<Rightarrow> string option \<Rightarrow> string \<Rightarrow> http_outcome \<times> 'w"
  Unmarshal_ipInfo :: "string \<Rightarrow> string option option"
  Unmarshal_ipqs :: "string \<Rightarrow> ipqs_fields option"
  os_Getenv :: "'w \<Rightarrow> string \<Rightarrow> string"
  stdin_ReadString :: "'w \<Rightarrow> string \<times> 'w"
  scan_file :: "'w \<Rightarrow> string \<Rightarrow> file_scan \<times> 'w"
  os_Create :: "'w \<Rightarrow> string \<Rightarrow> bool \<times> 'w"
  file_WriteString :: "'w \<Rightarrow> string \<Rightarrow> string \<Rightarrow> bool \<times> 'w"

definition zero_bool :: "bool option \<Rightarrow> bool" where
  "zero_bool f = (case f of None \<Rightarrow> False | Some b \<Rightarrow> b)"

definition zero_string :: "string option \<Rightarrow> string" where
  "zero_string f = (case f of None \<Rightarrow> '''' | Some v \<Rightarrow> v)"

definition zero_int :: "int option \<Rightarrow> int" where
  "zero_int f = (case f of None \<Rightarrow> 0 | Some n \<Rightarrow> n)"

definition IPInfoEndpoint :: string where
  "IPInfoEndpoint = ''http://ipinfo.io/json''"

definition IPQSEndpoint :: "string \<Rightarrow> string \<Rightarrow> string \<Rightarrow> string" where
  "IPQSEndpoint apiKey ipAddress strictnessLevel =
     ''https://ipqualityscore.com/api/json/ip/'' @ apiKey @ ''/'' @ ipAddress
       @ ''?strictness='' @ strictnessLevel"

definition InputProxiesFileName :: string where
  "InputProxiesFileName = ''proxies.txt''"

definition OutputFileName :: string where
  "OutputFileName = ''proxies_risk_score_0.txt''"

definition ValidProxiesFileName :: string where
  "ValidProxiesFileName = ''validproxys.txt''"

definition EnvAPIKey :: string where
  "EnvAPIKey = ''API_KEY''"

definition StatusOK :: nat where
  "StatusOK = 200"

section \<open>Risk score service\<close>

definition GetOutboundIP :: "'w env \<Rightarrow> 'w \<Rightarrow> string \<Rightarrow> (string \<times> 'w) option" where
  "GetOutboundIP env w proxy = do {
     formattedProxy \<leftarrow> ConvertProxyFormat proxy;
     if formattedProxy = '''' then Some ('''', w)
     else if \<not> url_Parse_ok env formattedProxy then Some ('''', w)
     else if \<not> NewRequest_ok env IPInfoEndpoint then Some ('''', w)
     else (case client_Do env w (Some formattedProxy) IPInfoEndpoint of
        (DoError, w') \<Rightarrow> Some ('''', w')
      | (Response status b, w') \<Rightarrow>
          if status \<noteq> StatusOK then Some ('''', w')
          else (case b of
             ReadError \<Rightarrow> Some ('''', w')
           | Body text \<Rightarrow>
               (case Unmarshal_ipInfo env text of
                  None \<Rightarrow> Some ('''', w')
                | Some ip \<Rightarrow>
                    if zero_string ip = '''' then Some ('''', w')
                    else Some (zero_string ip, w')))) }"

definition CheckIPRiskScore :: "'w env \<Rightarrow> 'w \<Rightarrow> string \<Rightarrow> string \<Rightarrow> string \<Rightarrow> int \<times> 'w" where
  "CheckIPRiskScore env w ipAddress apiKey strictnessLevel =
     (let url = IPQSEndpoint apiKey ipAddress strictnessLevel in
      if \<not> NewRequest_ok env url then (- 1, w)
      else (case client_Do env w None url of
         (DoError, w') \<Rightarrow> (- 1, w')
       | (Response status b, w') \<Rightarrow>
           if status \<noteq> StatusOK then (- 1, w')
           else (case b of
              ReadError \<Rightarrow> (- 1, w')
            | Body text \<Rightarrow>
                (case Unmarshal_ipqs env text of
                   None \<Rightarrow> (- 1, w')
                 | Some ipqsResponse \<Rightarrow>
                     if \<not> zero_bool (Success ipqsResponse) then (- 1, w')
                     else (zero_int (FraudScore ipqsResponse), w')))))"

text \<open>The loop of \<open>FilterProxies\<close>, with the slice \<open>filteredProxies\<close> as accumulator.\<close>

fun FilterProxies_loop ::
  "'w env \<Rightarrow> string \<Rightarrow> string \<Rightarrow> string list \<Rightarrow> string list \<Rightarrow> 'w \<Rightarrow> (string list \<times> 'w) option" where
  "FilterProxies_loop env apiKey strictnessLevel [] filteredProxies w = Some (filteredProxies, w)"
| "FilterProxies_loop env apiKey strictnessLevel (proxy # rest) filteredProxies w =
     (case GetOutboundIP env w proxy of
        None \<Rightarrow> None
      | Some (outboundIP, w1) \<Rightarrow>
          if outboundIP = '''' then FilterProxies_loop env apiKey strictnessLevel rest filteredProxies w1
          else (case CheckIPRiskScore env w1 outboundIP apiKey strictnessLevel of
             (riskScore, w2) \<Rightarrow>
               if riskScore = 0
                 then FilterProxies_loop env apiKey strictnessLevel rest (filteredProxies @ [proxy]) w2
               else if riskScore \<ge> 0
                 then FilterProxies_loop env apiKey strictnessLevel rest filteredProxies w2
               else FilterProxies_loop env apiKey strictnessLevel rest filteredProxies w2))"

definition FilterProxies ::
  "'w env \<Rightarrow> 'w \<Rightarrow> string list \<Rightarrow> string \<Rightarrow> string \<Rightarrow> (string list \<times> 'w) option" where
  "FilterProxies env w proxyList apiKey strictnessLevel =
     FilterProxies_loop env apiKey strictnessLevel proxyList [] w"

section \<open>Proxy validation\<close>

definition ValidateProxy :: "'w env \<Rightarrow> 'w \<Rightarrow> string \<Rightarrow> (bool \<times> 'w) option" where
  "ValidateProxy env w proxy = do {
     formattedProxy \<leftarrow> ConvertProxyFormat proxy;
     if formattedProxy = '''' then Some (False, w)
     else if \<not> url_Parse_ok env formattedProxy then Some (False, w)
     else if \<not> NewRequest_ok env ''http://httpbin.org/ip'' then Some (False, w)
     else (case client_Do env w (Some formattedProxy) ''http://httpbin.org/ip'' of
        (DoError, w') \<Rightarrow> Some (False, w')
      | (Response status b, w') \<Rightarrow>
          if status \<noteq> StatusOK then Some (False, w') else Some (True, w')) }"

datatype error =
    ApiKeyNotSet
  | OpenFailed string
  | ScanFailed string
  | NoProxiesFound
  | CreateFailed string
  | WriteFailed
  | SaveFailed error
  | NoValidProxies

fun write_proxies :: "'w env \<Rightarrow> string \<Rightarrow> string list \<Rightarrow> 'w \<Rightarrow> error option \<times> 'w" where
  "write_proxies env filename [] w = (None, w)"
| "write_proxies env filename (proxy # rest) w =
     (case file_WriteString env w filename (proxy @ [CHR 0x0A]) of
        (False, w') \<Rightarrow> (Some WriteFailed, w')
      | (True, w') \<Rightarrow> write_proxies env filename rest w')"

definition saveProxiesToFile :: "'w env \<Rightarrow> 'w \<Rightarrow> string list \<Rightarrow> string \<Rightarrow> error option \<times> 'w" where
  "saveProxiesToFile env w proxies filename =
     (case os_Create env w filename of
        (False, w') \<Rightarrow> (Some (CreateFailed filename), w')
      | (True, w') \<Rightarrow> write_proxies env filename proxies w')"

text \<open>
  The loop of \<open>ProxyService.ValidateAndSaveProxies\<close>: the proxy is formatted, and the
  formatted string is handed to \<open>ValidateProxy\<close>; the survivors keep their input form.
\<close>

fun validate_loop ::
  "'w env \<Rightarrow> string list \<Rightarrow> string list \<Rightarrow> 'w \<Rightarrow> (string list \<times> 'w) option" where
  "validate_loop env [] validProxies w = Some (validProxies, w)"
| "validate_loop env (proxy # rest) validProxies w =
     (case ConvertProxyFormat proxy of
        None \<Rightarrow> None
      | Some formattedProxy \<Rightarrow>
          if formattedProxy = '''' then validate_loop env rest validProxies w
          else (case ValidateProxy env w formattedProxy of
             None \<Rightarrow> None
           | Some (True, w') \<Rightarrow> validate_loop env rest (validProxies @ [proxy]) w'
           | Some (False, w') \<Rightarrow> validate_loop env rest validProxies w'))"

text \<open>
  Go returns the pair of the slice and the error; on a failed save the slice is \<open>nil\<close>,
  the empty list.
\<close>

definition ValidateAndSaveProxies ::
  "'w env \<Rightarrow> 'w \<Rightarrow> string list \<Rightarrow> string \<Rightarrow> ((string list \<times> error option) \<times> 'w) option" where
  "ValidateAndSaveProxies env w proxyList filename =
     (case validate_loop env proxyList [] w of
        None \<Rightarrow> None
      | Some (validProxies, w1) \<Rightarrow>
          (case saveProxiesToFile env w1 validProxies filename of
             (Some err, w2) \<Rightarrow> Some (([], Some (SaveFailed err)), w2)
           | (None, w2) \<Rightarrow> Some ((validProxies, None), w2)))"

text \<open>
  \<open>ProxyValidator.ValidateAndSaveProxies\<close> of package \<open>proxyvalidate\<close>: it has no error
  result; failures to create or write the file are only logged.
\<close>

fun pv_validate_loop ::
  "'w env \<Rightarrow> string list \<Rightarrow> string list \<Rightarrow> 'w \<Rightarrow> (string list \<times> 'w) option" where
  "pv_validate_loop env [] validProxies w = Some (validProxies, w)"
| "pv_validate_loop env (proxy # rest) validProxies w =
     (case ValidateProxy env w proxy of
        None \<Rightarrow> None
      | Some (True, w') \<Rightarrow> pv_validate_loop env rest (validProxies @ [proxy]) w'
      | Some (False, w') \<Rightarrow> pv_validate_loop env rest validProxies w')"

definition ProxyValidator_ValidateAndSaveProxies ::
  "'w env \<Rightarrow> 'w \<Rightarrow> string list \<Rightarrow> string \<Rightarrow> (string list \<times> 'w) option" where
  "ProxyValidator_ValidateAndSaveProxies env w proxyList outputFilename =
     (case pv_validate_loop env proxyList [] w of
        None \<Rightarrow> None
      | Some (validProxies, w1) \<Rightarrow>
          (case os_Create env w1 outputFilename of
             (False, w2) \<Rightarrow> Some (validProxies, w2)
           | (True, w2) \<Rightarrow>
               Some (validProxies, snd (write_proxies env outputFilename validProxies w2))))"

section \<open>The pipeline\<close>

definition GetAPIKey :: "'w env \<Rightarrow> 'w \<Rightarrow> error + string" where
  "GetAPIKey env w =
     (let apiKey = os_Getenv env w EnvAPIKey in
      if apiKey = '''' then Inl ApiKeyNotSet else Inr apiKey)"

definition LogQuestionInput :: "'w env \<Rightarrow> 'w \<Rightarrow> string \<times> 'w" where
  "LogQuestionInput env w =
     (case stdin_ReadString env w of (input, w') \<Rightarrow> (TrimSpace input, w'))"

definition ReadProxiesFromFile :: "'w env \<Rightarrow> 'w \<Rightarrow> string \<Rightarrow> (error + string list) \<times> 'w" where
  "ReadProxiesFromFile env w filename =
     (case scan_file env w filename of
        (OpenError, w') \<Rightarrow> (Inl (OpenFailed filename), w')
      | (Lines ls scan_error, w') \<Rightarrow>
          if scan_error then (Inl (ScanFailed filename), w')
          else (Inr (filter (\<lambda>line. line \<noteq> '''') (map TrimSpace ls)), w'))"

definition prepareProxies ::
  "'w env \<Rightarrow> 'w \<Rightarrow> (error + string list \<times> string \<times> string) \<times> 'w" where
  "prepareProxies env w =
     (case GetAPIKey env w of
        Inl err \<Rightarrow> (Inl err, w)
      | Inr apiKey \<Rightarrow>
          (case LogQuestionInput env w of (strictness_in, w1) \<Rightarrow>
           let strictnessLevel = (if strictness_in = '''' then ''0'' else strictness_in) in
           (case LogQuestionInput env w1 of (file_in, w2) \<Rightarrow>
            let inputFileName = (if file_in = '''' then InputProxiesFileName else file_in) in
            (case ReadProxiesFromFile env w2 inputFileName of
               (Inl err, w3) \<Rightarrow> (Inl err, w3)
             | (Inr proxyInput, w3) \<Rightarrow>
                 if length proxyInput = 0 then (Inl NoProxiesFound, w3)
                 else (Inr (proxyInput, apiKey, strictnessLevel), w3)))))"

text \<open>
  \<open>Run\<close> calls the risk checker through the interface \<open>RiskScoreValidator\<close>; \<open>Run_with\<close>
  takes the implementation of its method \<open>FilterProxies\<close> as a parameter, and \<open>Run\<close> is
  the wiring of \<open>NewProxyService\<close>.  The result is the returned error, if any.
\<close>

definition Run_with ::
  "('w \<Rightarrow> string list \<Rightarrow> string \<Rightarrow> string \<Rightarrow> (string list \<times> 'w) option) \<Rightarrow>
   'w env \<Rightarrow> 'w \<Rightarrow> (error option \<times> 'w) option" where
  "Run_with riskFilter env w =
     (case prepareProxies env w of
        (Inl err, w1) \<Rightarrow> Some (Some err, w1)
      | (Inr (proxyInput, apiKey, strictnessLevel), w1) \<Rightarrow>
          (case ValidateAndSaveProxies env w1 proxyInput ValidProxiesFileName of
             None \<Rightarrow> None
           | Some ((validProxies, Some err), w2) \<Rightarrow> Some (Some err, w2)
           | Some ((validProxies, None), w2) \<Rightarrow>
               if length validProxies = 0 then Some (Some NoValidProxies, w2)
               else (case riskFilter w2 validProxies apiKey strictnessLevel of
                  None \<Rightarrow> None
                | Some (filteredProxies, w3) \<Rightarrow>
                    Some (saveProxiesToFile env w3 filteredProxies OutputFileName))))"

definition Run :: "'w env \<Rightarrow> 'w \<Rightarrow> (error option \<times> 'w) option" where
  "Run env w = Run_with (FilterProxies env) env w"

text \<open>\<open>main\<close>: the exit status of the process, 1 after \<open>os.Exit(1)\<close> and 0 otherwise.\<close>

definition exit_status :: "error option \<Rightarrow> nat" where
  "exit_status r = (case r of Some err \<Rightarrow> 1 | None \<Rightarrow> 0)"

definition main_with ::
  "('w \<Rightarrow> string list \<Rightarrow> string \<Rightarrow> string \<Rightarrow> (string list \<times> 'w) option) \<Rightarrow>
   'w env \<Rightarrow> 'w \<Rightarrow> (nat \<times> 'w) option" where
  "main_with riskFilter env w =
     map_option (\<lambda>(r, w'). (exit_status r, w')) (Run_with riskFilter env w)"

definition main :: "'w env \<Rightarrow> 'w \<Rightarrow> (nat \<times> 'w) option" where
  "main env w = main_with (FilterProxies env) env w"

section \<open>Notions of the specification\<close>

text \<open>A descriptor is valid when host and port are both non-empty.\<close>

definition valid_descriptor :: "descriptor \<Rightarrow> bool" where
  "valid_descriptor d = (host d \<noteq> '''' \<and> port d \<noteq> '''')"

text \<open>
  The fields of the colon split, for the inputs on which \<open>ParseProxy\<close> reaches the
  \<open>switch\<close>: the value of \<open>parts\<close> there.
\<close>

definition split_step :: "string \<Rightarrow> string list option" where
  "split_step proxy0 =
     (let proxy = TrimSpace proxy0 in
      if FindStringSubmatch protocolWithAuthPattern proxy = None
         \<and> FindStringSubmatch protocolNoAuthPattern proxy = None
      then (case strip_protocol proxy of
              None \<Rightarrow> None
            | Some (pr, rem) \<Rightarrow>
                if FindStringSubmatch userPassHostPattern rem = None
                then Some (Split rem CHR '':'') else None)
      else None)"

text \<open>
  What one run of the filter measures: for each proxy, in input order, the outbound IP
  found for it and, when that is not empty, the risk score returned for this IP.
\<close>

fun measure_all ::
  "'w env \<Rightarrow> string \<Rightarrow> string \<Rightarrow> 'w \<Rightarrow> string list \<Rightarrow> ((string \<times> int option) list \<times> 'w) option" where
  "measure_all env apiKey strictnessLevel w [] = Some ([], w)"
| "measure_all env apiKey strictnessLevel w (proxy # rest) =
     (case GetOutboundIP env w proxy of
        None \<Rightarrow> None
      | Some (ip, w1) \<Rightarrow>
          if ip = '''' then
            (case measure_all env apiKey strictnessLevel w1 rest of
               None \<Rightarrow> None
             | Some (ms, w') \<Rightarrow> Some ((ip, None) # ms, w'))
          else
            (case CheckIPRiskScore env w1 ip apiKey strictnessLevel of
               (score, w2) \<Rightarrow>
                 (case measure_all env apiKey strictnessLevel w2 rest of
                    None \<Rightarrow> None
                  | Some (ms, w') \<Rightarrow> Some ((ip, Some score) # ms, w'))))"

definition clean :: "string \<times> string \<times> int option \<Rightarrow> bool" where
  "clean m = (case m of (proxy, ip, score) \<Rightarrow> ip \<noteq> '''' \<and> score = Some 0)"

text \<open>
  The failures of a score lookup that the specification lists: the request fails (it
  cannot be built or sent, or its body cannot be read), the status is not 200, the body
  is not parseable, or \<open>success\<close> is false.
\<close>

definition lookup_failed :: "'w env \<Rightarrow> 'w \<Rightarrow> string \<Rightarrow> string \<Rightarrow> string \<Rightarrow> bool" where
  "lookup_failed env w ipAddress apiKey strictnessLevel =
     (let url = IPQSEndpoint apiKey ipAddress strictnessLevel in
      \<not> NewRequest_ok env url \<or>
      (case fst (client_Do env w None url) of
         DoError \<Rightarrow> True
       | Response status ReadError \<Rightarrow> True
       | Response status (Body text) \<Rightarrow>
           status \<noteq> StatusOK \<or>
           (case Unmarshal_ipqs env text of
              None \<Rightarrow> True
            | Some r \<Rightarrow> \<not> zero_bool (Success r))))"

text \<open>The \<open>fraud_score\<close> field of the response to a score lookup, if there is one.\<close>

definition fraud_score_field :: "'w env \<Rightarrow> 'w \<Rightarrow> string \<Rightarrow> string \<Rightarrow> string \<Rightarrow> int option" where
  "fraud_score_field env w ipAddress apiKey strictnessLevel =
     (case fst (client_Do env w None (IPQSEndpoint apiKey ipAddress strictnessLevel)) of
        Response status (Body text) \<Rightarrow>
          (case Unmarshal_ipqs env text of
             None \<Rightarrow> None
           | Some r \<Rightarrow> Some (zero_int (FraudScore r)))
      | _ \<Rightarrow> None)"

definition all_digits :: "string \<Rightarrow> bool" where
  "all_digits s = (s \<noteq> '''' \<and> list_all (in_cls Digit) s)"

section \<open>A sample world\<close>

text \<open>
  A world that counts the requests sent.  Every proxy answers, the IP service reports
  the address 203.0.113.7, and the reputation service answers with \<open>success\<close> true and
  no \<open>fraud_score\<close> field.  The input file has three lines.
\<close>

definition sample_env :: "nat env" where
  "sample_env =
     \<lparr>url_Parse_ok = (\<lambda>u. True),
      NewRequest_ok = (\<lambda>u. True),
      client_Do = (\<lambda>w via url. (Response 200 (Body ''{}''), Suc w)),
      Unmarshal_ipInfo = (\<lambda>text. Some (Some ''203.0.113.7'')),
      Unmarshal_ipqs = (\<lambda>text. Some \<lparr>Success = Some True, Message = None, FraudScore = None\<rparr>),
      os_Getenv = (\<lambda>w name. ''secret''),
      stdin_ReadString = (\<lambda>w. ([CHR 0x0A], w)),
      scan_file = (\<lambda>w name. (Lines [''1.1.1.1:8080'', '''', ''bad::::format''] False, w)),
      os_Create = (\<lambda>w name. (True, w)),
      file_WriteString = (\<lambda>w name text. (True, w))\<rparr>"

section \<open>Properties of the library model\<close>

declare rmatch.simps(2) [simp del]

lemma first_some_SomeD:
  "first_some f xs = Some y \<Longrightarrow> \<exists>x \<in> set xs. f x = Some y"
  by (induction xs) (auto split: option.splits)

lemma first_some_None_iff:
  "first_some f xs = None \<longleftrightarrow> (\<forall>x \<in> set xs. f x = None)"
  by (induction xs) (auto split: option.splits)

lemma first_some_append:
  "first_some f (xs @ ys) = (case first_some f xs of Some y \<Rightarrow> Some y | None \<Rightarrow> first_some f ys)"
  by (induction xs) (auto split: option.splits)

lemma add_capture_Some_iff:
  "add_capture c m = Some (cs, r) \<longleftrightarrow> (\<exists>cs'. cs = c # cs' \<and> m = Some (cs', r))"
  by (cases m) (auto simp: add_capture_def)

lemma add_capture_None_iff [simp]: "add_capture c m = None \<longleftrightarrow> m = None"
  by (simp add: add_capture_def)

lemma add_capture_None [simp]: "add_capture c None = None"
  by (simp add: add_capture_def)

lemma add_capture_Some [simp]: "add_capture c (Some (cs, r)) = Some (c # cs, r)"
  by (simp add: add_capture_def)

lemma rmatch_CapAlt:
  "rmatch (CapAlt ls # p) s =
     first_some (\<lambda>l. if prefix l s then add_capture l (rmatch p (drop (length l) s)) else None) ls"
  by (simp add: rmatch.simps(2))

lemma rmatch_OptChar:
  "rmatch (OptChar c # p) s =
     (case (if prefix [c] s then rmatch p (drop 1 s) else None) of
        Some m \<Rightarrow> Some m
      | None \<Rightarrow> rmatch p s)"
  by (simp add: rmatch.simps(2))

lemma rmatch_Lit:
  "rmatch (Lit l # p) s = (if prefix l s then rmatch p (drop (length l) s) else None)"
  by (simp add: rmatch.simps(2))

lemma rmatch_Lit_append [simp]: "rmatch (Lit l # p) (l @ s) = rmatch p s"
  by (simp add: rmatch_Lit)

lemma rmatch_Eos [simp]: "rmatch (Eos # p) s = (if s = [] then rmatch p [] else None)"
  by (simp add: rmatch.simps(2))

lemma rmatch_LitD:
  "rmatch (Lit l # p) s = Some m \<Longrightarrow> \<exists>s'. s = l @ s' \<and> rmatch p s' = Some m"
  by (auto simp: rmatch_Lit prefix_def split: if_splits)

lemma rmatch_CapAltD:
  assumes "rmatch (CapAlt ls # p) s = Some (cs, r)"
  shows "\<exists>l s' cs'. l \<in> set ls \<and> s = l @ s' \<and> cs = l # cs' \<and> rmatch p s' = Some (cs', r)"
proof -
  from assms have "first_some
      (\<lambda>l. if prefix l s then add_capture l (rmatch p (drop (length l) s)) else None) ls
      = Some (cs, r)"
    by (simp add: rmatch.simps(2))
  then obtain l where l: "l \<in> set ls"
    and m: "(if prefix l s then add_capture l (rmatch p (drop (length l) s)) else None) = Some (cs, r)"
    by (blast dest: first_some_SomeD)
  from m have pre: "prefix l s" and "add_capture l (rmatch p (drop (length l) s)) = Some (cs, r)"
    by (auto split: if_splits)
  then obtain cs' where "cs = l # cs'" "rmatch p (drop (length l) s) = Some (cs', r)"
    by (auto simp: add_capture_Some_iff)
  moreover from pre have "s = l @ drop (length l) s" by (auto simp: prefix_def)
  ultimately show ?thesis using l by blast
qed

lemma rmatch_CapPlusD:
  assumes "rmatch (CapPlus c # p) s = Some (cs, r)"
  shows "\<exists>x s' cs'. s = x @ s' \<and> x \<noteq> [] \<and> (\<forall>ch \<in> set x. in_cls c ch) \<and> cs = x # cs'
           \<and> rmatch p s' = Some (cs', r)"
proof -
  let ?n = "length (takeWhile (in_cls c) s)"
  from assms have "first_some (\<lambda>k. add_capture (take k s) (rmatch p (drop k s)))
      (rev [1 ..< Suc ?n]) = Some (cs, r)"
    by (simp add: rmatch.simps(2))
  then obtain k where k: "k \<in> set (rev [1 ..< Suc ?n])"
    and m: "add_capture (take k s) (rmatch p (drop k s)) = Some (cs, r)"
    by (blast dest: first_some_SomeD)
  from m obtain cs' where cs: "cs = take k s # cs'" "rmatch p (drop k s) = Some (cs', r)"
    by (auto simp: add_capture_Some_iff)
  from k have k1: "1 \<le> k" and kn: "k \<le> ?n" by auto
  have "?n \<le> length s" by (rule length_takeWhile_le)
  with k1 kn have ne: "take k s \<noteq> []" by auto
  have "take k s = take k (takeWhile (in_cls c) s)"
    using kn by (metis takeWhile_dropWhile_id take_append diff_is_0_eq' take_0 append_Nil2)
  then have "set (take k s) \<subseteq> set (takeWhile (in_cls c) s)"
    by (metis set_take_subset)
  then have cl: "\<forall>ch \<in> set (take k s). in_cls c ch"
    by (auto dest: set_takeWhileD)
  have "s = take k s @ drop k s" by simp
  with ne cl cs show ?thesis by blast
qed

lemma length_takeWhile_append_ge:
  "\<forall>ch \<in> set x. P ch \<Longrightarrow> length x \<le> length (takeWhile P (x @ s))"
  by (simp add: takeWhile_append2)

lemma first_some_rev_upt:
  assumes "f k = Some y" "1 \<le> k" "k \<le> n" "\<And>j. k < j \<Longrightarrow> j \<le> n \<Longrightarrow> f j = None"
  shows "first_some f (rev [1 ..< Suc n]) = Some y"
  using assms
proof (induction n)
  case 0
  then show ?case by simp
next
  case (Suc n)
  show ?case
  proof (cases "k = Suc n")
    case True
    with Suc.prems show ?thesis by simp
  next
    case False
    with Suc.prems have kn: "k \<le> n" by simp
    have "f (Suc n) = None" using Suc.prems(4)[of "Suc n"] kn by simp
    moreover have "first_some f (rev [1 ..< Suc n]) = Some y"
      using Suc.IH[OF Suc.prems(1,2) kn] Suc.prems(4) by simp
    ultimately show ?thesis by simp
  qed
qed

lemma rmatch_CapPlus_greedy:
  assumes ne: "x \<noteq> []" and cl: "\<forall>ch \<in> set x. in_cls c ch"
    and m: "rmatch p s' = Some (cs, r)"
    and longer: "\<And>j. length x < j \<Longrightarrow> j \<le> length (x @ s') \<Longrightarrow> rmatch p (drop j (x @ s')) = None"
  shows "rmatch (CapPlus c # p) (x @ s') = Some (x # cs, r)"
proof -
  let ?s = "x @ s'"
  let ?n = "length (takeWhile (in_cls c) ?s)"
  let ?f = "\<lambda>k. add_capture (take k ?s) (rmatch p (drop k ?s))"
  have "?f (length x) = Some (x # cs, r)" using m by simp
  moreover have "1 \<le> length x" using ne by (cases x) auto
  moreover have "length x \<le> ?n" using cl by (rule length_takeWhile_append_ge)
  moreover have "\<And>j. length x < j \<Longrightarrow> j \<le> ?n \<Longrightarrow> ?f j = None"
  proof -
    fix j assume "length x < j" "j \<le> ?n"
    moreover have "?n \<le> length ?s" by (rule length_takeWhile_le)
    ultimately show "?f j = None" using longer[of j] by simp
  qed
  ultimately have "first_some ?f (rev [1 ..< Suc ?n]) = Some (x # cs, r)"
    by (rule first_some_rev_upt)
  then show ?thesis by (simp add: rmatch.simps(2))
qed

lemma space_encodings_nonempty: "e \<in> set space_encodings \<Longrightarrow> e \<noteq> []"
  by (auto simp: space_encodings_def)

lemma leading_space_0_iff:
  "leading_space s = 0 \<longleftrightarrow> (\<forall>e \<in> set space_encodings. \<not> prefix e s)"
  by (auto simp: leading_space_def find_None_iff find_Some_iff
      dest: space_encodings_nonempty nth_mem split: option.splits)

lemma trailing_space_0_iff:
  "trailing_space s = 0 \<longleftrightarrow> (\<forall>e \<in> set space_encodings. \<not> suffix e s)"
  by (auto simp: trailing_space_def find_None_iff find_Some_iff
      dest: space_encodings_nonempty nth_mem split: option.splits)

lemma leading_space_TrimLeft: "leading_space (TrimLeft s) = 0"
  by (induction s rule: TrimLeft.induct) (subst TrimLeft.simps, simp)

lemma trailing_space_TrimRight: "trailing_space (TrimRight s) = 0"
  by (induction s rule: TrimRight.induct) (subst TrimRight.simps, simp)

lemma suffix_TrimLeft: "suffix (TrimLeft s) s"
proof (induction s rule: TrimLeft.induct)
  case (1 s)
  show ?case
  proof (cases "leading_space s = 0")
    case True
    then show ?thesis by (subst TrimLeft.simps) simp
  next
    case False
    with 1 have "suffix (TrimLeft (drop (leading_space s) s)) (drop (leading_space s) s)" by simp
    then have "suffix (TrimLeft (drop (leading_space s) s)) s"
      by (rule suffix_order.trans) (rule suffix_drop)
    with False show ?thesis by (subst TrimLeft.simps) simp
  qed
qed

lemma prefix_TrimRight: "prefix (TrimRight s) s"
proof (induction s rule: TrimRight.induct)
  case (1 s)
  show ?case
  proof (cases "trailing_space s = 0")
    case True
    then show ?thesis by (subst TrimRight.simps) simp
  next
    case False
    with 1 have "prefix (TrimRight (take (length s - trailing_space s) s))
        (take (length s - trailing_space s) s)" by simp
    then have "prefix (TrimRight (take (length s - trailing_space s) s)) s"
      by (rule prefix_order.trans) (rule take_is_prefix)
    with False show ?thesis by (subst TrimRight.simps) simp
  qed
qed

lemma leading_space_prefix:
  "leading_space s = 0 \<Longrightarrow> prefix t s \<Longrightarrow> leading_space t = 0"
  by (auto simp: leading_space_0_iff dest: prefix_order.trans)

lemma TrimSpace_clean:
  "leading_space (TrimSpace s) = 0" "trailing_space (TrimSpace s) = 0"
  unfolding TrimSpace_def
  by (rule leading_space_prefix[OF leading_space_TrimLeft prefix_TrimRight])
     (rule trailing_space_TrimRight)

lemma TrimSpace_fix:
  "leading_space s = 0 \<Longrightarrow> trailing_space s = 0 \<Longrightarrow> TrimSpace s = s"
  unfolding TrimSpace_def by (subst TrimLeft.simps, simp, subst TrimRight.simps, simp)

lemma TrimSpace_idem: "TrimSpace (TrimSpace s) = TrimSpace s"
  by (rule TrimSpace_fix) (rule TrimSpace_clean)+

lemma set_TrimSpace: "set (TrimSpace s) \<subseteq> set s"
proof -
  have "set (TrimRight (TrimLeft s)) \<subseteq> set (TrimLeft s)"
    using prefix_TrimRight by (rule set_mono_prefix)
  moreover have "set (TrimLeft s) \<subseteq> set s"
    using suffix_TrimLeft by (rule set_mono_suffix)
  ultimately show ?thesis unfolding TrimSpace_def by blast
qed

lemma TrimSpace_Nil [simp]: "TrimSpace [] = []"
  using set_TrimSpace[of "[]"] by simp

text \<open>The first and the last byte of the encoding of a white space rune.\<close>

lemma space_first_byte:
  "e \<in> set space_encodings \<Longrightarrow> prefix e (c # s) \<Longrightarrow>
   c \<in> {CHR 0x09, CHR 0x0A, CHR 0x0B, CHR 0x0C, CHR 0x0D, CHR 0x20,
        CHR 0xC2, CHR 0xE1, CHR 0xE2, CHR 0xE3}"
  by (auto simp: space_encodings_def)

lemma space_last_byte:
  "e \<in> set space_encodings \<Longrightarrow> suffix e (s @ [c]) \<Longrightarrow>
   c \<in> {CHR 0x09, CHR 0x0A, CHR 0x0B, CHR 0x0C, CHR 0x0D, CHR 0x20,
        CHR 0x85, CHR 0xA0, CHR 0x80, CHR 0x81, CHR 0x82, CHR 0x83, CHR 0x84, CHR 0x86,
        CHR 0x87, CHR 0x88, CHR 0x89, CHR 0x8A, CHR 0xA8, CHR 0xA9, CHR 0xAF, CHR 0x9F}"
  by (auto simp: space_encodings_def suffix_def append_eq_append_conv2 snoc_eq_iff_butlast)

lemma at_Cons_Suc [simp]: "at (x # xs) (Suc i) = at xs i"
  by (simp add: at_def)

lemma at_Cons_0 [simp]: "at (x # xs) 0 = Some x"
  by (simp add: at_def)

lemma at_Nil [simp]: "at [] i = None"
  by (simp add: at_def)

lemma at_Cons_numeral [simp]: "at (x # xs) (numeral n) = at xs (pred_numeral n)"
  by (simp add: at_def)

lemma at_Cons_1 [simp]: "at (x # xs) 1 = at xs 0"
  by (simp add: at_def)

lemma FindStringSubmatch_None_iff [simp]:
  "FindStringSubmatch p s = None \<longleftrightarrow> rmatch p s = None"
  by (simp add: FindStringSubmatch_def split: option.splits)

lemma FindStringSubmatch_Some:
  "rmatch p s = Some (cs, r) \<Longrightarrow>
   FindStringSubmatch p s = Some (take (length s - length r) s # cs)"
  by (simp add: FindStringSubmatch_def)

lemma userPassHost_sound:
  assumes "rmatch userPassHostPattern s = Some (cs, r)"
  shows "\<exists>u w h po. cs = [u, w, h, po] \<and> r = [] \<and>
           s = u @ '':'' @ w @ ''@'' @ h @ '':'' @ po \<and>
           u \<noteq> [] \<and> w \<noteq> [] \<and> h \<noteq> [] \<and> po \<noteq> [] \<and>
           (\<forall>c \<in> set po. in_cls Digit c) \<and>
           (\<forall>c \<in> set u \<union> set w \<union> set h. in_cls AnyChar c)"
proof -
  from assms obtain u s1 c1 where 1: "s = u @ s1" "u \<noteq> []" "\<forall>c \<in> set u. in_cls AnyChar c"
      "cs = u # c1"
      "rmatch [Lit '':'', CapPlus AnyChar, Lit ''@'', CapPlus AnyChar, Lit '':'', CapPlus Digit, Eos] s1
         = Some (c1, r)"
    unfolding userPassHostPattern_def by (blast dest: rmatch_CapPlusD)
  from 1(5) obtain s2 where 2: "s1 = '':'' @ s2"
      "rmatch [CapPlus AnyChar, Lit ''@'', CapPlus AnyChar, Lit '':'', CapPlus Digit, Eos] s2 = Some (c1, r)"
    by (blast dest: rmatch_LitD)
  from 2(2) obtain w s3 c3 where 3: "s2 = w @ s3" "w \<noteq> []" "\<forall>c \<in> set w. in_cls AnyChar c"
      "c1 = w # c3"
      "rmatch [Lit ''@'', CapPlus AnyChar, Lit '':'', CapPlus Digit, Eos] s3 = Some (c3, r)"
    by (blast dest: rmatch_CapPlusD)
  from 3(5) obtain s4 where 4: "s3 = ''@'' @ s4"
      "rmatch [CapPlus AnyChar, Lit '':'', CapPlus Digit, Eos] s4 = Some (c3, r)"
    by (blast dest: rmatch_LitD)
  from 4(2) obtain h s5 c5 where 5: "s4 = h @ s5" "h \<noteq> []" "\<forall>c \<in> set h. in_cls AnyChar c"
      "c3 = h # c5"
      "rmatch [Lit '':'', CapPlus Digit, Eos] s5 = Some (c5, r)"
    by (blast dest: rmatch_CapPlusD)
  from 5(5) obtain s6 where 6: "s5 = '':'' @ s6"
      "rmatch [CapPlus Digit, Eos] s6 = Some (c5, r)"
    by (blast dest: rmatch_LitD)
  from 6(2) obtain po s7 c7 where 7: "s6 = po @ s7" "po \<noteq> []" "\<forall>c \<in> set po. in_cls Digit c"
      "c5 = po # c7"
      "rmatch [Eos] s7 = Some (c7, r)"
    by (blast dest: rmatch_CapPlusD)
  from 7(5) have 8: "s7 = []" "c7 = []" "r = []"
    by (auto split: if_splits)
  show ?thesis
    using 1(1-4) 2(1) 3(1-4) 4(1) 5(1-4) 6(1) 7(1-4) 8 by auto
qed

lemma protocolWithAuth_sound:
  assumes "rmatch protocolWithAuthPattern s = Some (cs, r)"
  shows "\<exists>pr rest cs'. pr \<in> set protocols \<and> s = pr @ ''://'' @ rest \<and> cs = pr # cs' \<and>
           rmatch userPassHostPattern rest = Some (cs', r)"
proof -
  from assms obtain pr s1 c1 where 1: "pr \<in> set protocols" "s = pr @ s1" "cs = pr # c1"
      "rmatch (Lit ''://'' # userPassHostPattern) s1 = Some (c1, r)"
    unfolding protocolWithAuthPattern_def by (blast dest: rmatch_CapAltD)
  from 1(4) obtain s2 where "s1 = ''://'' @ s2" "rmatch userPassHostPattern s2 = Some (c1, r)"
    by (blast dest: rmatch_LitD)
  with 1 show ?thesis by blast
qed

lemma protocolNoAuth_sound:
  assumes "rmatch protocolNoAuthPattern s = Some (cs, r)"
  shows "\<exists>pr h po. pr \<in> set protocols \<and> cs = [pr, h, po] \<and> r = [] \<and>
           s = pr @ ''://'' @ h @ '':'' @ po \<and> h \<noteq> [] \<and> po \<noteq> [] \<and>
           (\<forall>c \<in> set po. in_cls Digit c) \<and> (\<forall>c \<in> set h. in_cls AnyChar c)"
proof -
  from assms obtain pr s1 c1 where 1: "pr \<in> set protocols" "s = pr @ s1" "cs = pr # c1"
      "rmatch [Lit ''://'', CapPlus AnyChar, Lit '':'', CapPlus Digit, Eos] s1 = Some (c1, r)"
    unfolding protocolNoAuthPattern_def by (blast dest: rmatch_CapAltD)
  from 1(4) obtain s2 where 2: "s1 = ''://'' @ s2"
      "rmatch [CapPlus AnyChar, Lit '':'', CapPlus Digit, Eos] s2 = Some (c1, r)"
    by (blast dest: rmatch_LitD)
  from 2(2) obtain h s5 c5 where 5: "s2 = h @ s5" "h \<noteq> []" "\<forall>c \<in> set h. in_cls AnyChar c"
      "c1 = h # c5"
      "rmatch [Lit '':'', CapPlus Digit, Eos] s5 = Some (c5, r)"
    by (blast dest: rmatch_CapPlusD)
  from 5(5) obtain s6 where 6: "s5 = '':'' @ s6"
      "rmatch [CapPlus Digit, Eos] s6 = Some (c5, r)"
    by (blast dest: rmatch_LitD)
  from 6(2) obtain po s7 c7 where 7: "s6 = po @ s7" "po \<noteq> []" "\<forall>c \<in> set po. in_cls Digit c"
      "c5 = po # c7"
      "rmatch [Eos] s7 = Some (c7, r)"
    by (blast dest: rmatch_CapPlusD)
  from 7(5) have 8: "s7 = []" "c7 = []" "r = []"
    by (auto split: if_splits)
  show ?thesis
    using 1(1-3) 2(1) 5(1-4) 6(1) 7(1-4) 8 by auto
qed

lemma protocolPrefix_sound:
  assumes "rmatch protocolPrefix s = Some (cs, r)"
  shows "\<exists>pr s'. pr \<in> set protocols \<and> cs = [pr] \<and> s = pr @ '':'' @ s' \<and> suffix r s'"
proof -
  from assms obtain pr s1 c1 where 1: "pr \<in> set protocols" "s = pr @ s1" "cs = pr # c1"
      "rmatch [Lit '':'', OptChar CHR ''/'', OptChar CHR ''/''] s1 = Some (c1, r)"
    unfolding protocolPrefix_def by (blast dest: rmatch_CapAltD)
  from 1(4) obtain s2 where 2: "s1 = '':'' @ s2"
      "rmatch [OptChar CHR ''/'', OptChar CHR ''/''] s2 = Some (c1, r)"
    by (blast dest: rmatch_LitD)
  from 2(2) have "c1 = [] \<and> suffix r s2"
    by (auto simp: rmatch.simps(2) suffix_drop split: if_splits option.splits)
  with 1 2 show ?thesis by auto
qed

lemma strip_protocol_cases:
  "(rmatch protocolPrefix t = None \<and> strip_protocol t = Some ('''', t)) \<or>
   (\<exists>pr rem. pr \<in> set protocols \<and> rmatch protocolPrefix t = Some ([pr], rem) \<and>
      strip_protocol t = Some (pr, rem))"
proof (cases "rmatch protocolPrefix t")
  case None
  then show ?thesis by (simp add: strip_protocol_def FindStringSubmatch_def)
next
  case (Some m)
  obtain cs r where m: "m = (cs, r)" by (cases m)
  with Some obtain pr where "pr \<in> set protocols" "cs = [pr]"
    by (blast dest: protocolPrefix_sound)
  with Some m show ?thesis
    by (simp add: strip_protocol_def FindStringSubmatch_def ReplaceAllString_def)
qed

lemma ParseProxy_withAuth:
  assumes "rmatch protocolWithAuthPattern (TrimSpace s) = Some (cs, r)"
  shows "\<exists>pr u w h po. pr \<in> set protocols \<and>
     TrimSpace s = pr @ ''://'' @ u @ '':'' @ w @ ''@'' @ h @ '':'' @ po \<and>
     u \<noteq> [] \<and> w \<noteq> [] \<and> h \<noteq> [] \<and> po \<noteq> [] \<and> (\<forall>c \<in> set po. in_cls Digit c) \<and>
     ParseProxy s = Some \<lparr>host = h, port = po, user = u, password = w, protocol = pr\<rparr>"
proof -
  from assms obtain pr rest cs' where 1: "pr \<in> set protocols" "TrimSpace s = pr @ ''://'' @ rest"
      "cs = pr # cs'" "rmatch userPassHostPattern rest = Some (cs', r)"
    by (blast dest: protocolWithAuth_sound)
  from 1(4) obtain u w h po where 2: "cs' = [u, w, h, po]"
      "rest = u @ '':'' @ w @ ''@'' @ h @ '':'' @ po"
      "u \<noteq> []" "w \<noteq> []" "h \<noteq> []" "po \<noteq> []" "\<forall>c \<in> set po. in_cls Digit c"
    by (blast dest: userPassHost_sound)
  have "ParseProxy s = Some \<lparr>host = h, port = po, user = u, password = w, protocol = pr\<rparr>"
    using assms 1(3) 2(1) by (simp add: ParseProxy_def FindStringSubmatch_def Let_def)
  with 1 2 show ?thesis by blast
qed

lemma ParseProxy_noAuth:
  assumes "rmatch protocolWithAuthPattern (TrimSpace s) = None"
    and "rmatch protocolNoAuthPattern (TrimSpace s) = Some (cs, r)"
  shows "\<exists>pr h po. pr \<in> set protocols \<and>
     TrimSpace s = pr @ ''://'' @ h @ '':'' @ po \<and>
     h \<noteq> [] \<and> po \<noteq> [] \<and> (\<forall>c \<in> set po. in_cls Digit c) \<and>
     ParseProxy s = Some \<lparr>host = h, port = po, user = '''', password = '''', protocol = pr\<rparr>"
proof -
  from assms(2) obtain pr h po where 1: "pr \<in> set protocols" "cs = [pr, h, po]"
      "TrimSpace s = pr @ ''://'' @ h @ '':'' @ po" "h \<noteq> []" "po \<noteq> []"
      "\<forall>c \<in> set po. in_cls Digit c"
    by (blast dest: protocolNoAuth_sound)
  have "ParseProxy s = Some \<lparr>host = h, port = po, user = '''', password = '''', protocol = pr\<rparr>"
    using assms 1(2) by (simp add: ParseProxy_def FindStringSubmatch_def Let_def)
  with 1 show ?thesis by blast
qed

lemma ParseProxy_userPassHost:
  assumes "rmatch protocolWithAuthPattern (TrimSpace s) = None"
    and "rmatch protocolNoAuthPattern (TrimSpace s) = None"
    and "strip_protocol (TrimSpace s) = Some (pr, rem)"
    and "rmatch userPassHostPattern rem = Some (cs, r)"
  shows "\<exists>u w h po. rem = u @ '':'' @ w @ ''@'' @ h @ '':'' @ po \<and>
     u \<noteq> [] \<and> w \<noteq> [] \<and> h \<noteq> [] \<and> po \<noteq> [] \<and> (\<forall>c \<in> set po. in_cls Digit c) \<and>
     ParseProxy s = Some \<lparr>host = h, port = po, user = u, password = w, protocol = pr\<rparr>"
proof -
  from assms(4) obtain u w h po where 2: "cs = [u, w, h, po]"
      "rem = u @ '':'' @ w @ ''@'' @ h @ '':'' @ po"
      "u \<noteq> []" "w \<noteq> []" "h \<noteq> []" "po \<noteq> []" "\<forall>c \<in> set po. in_cls Digit c"
    by (blast dest: userPassHost_sound)
  have "ParseProxy s = Some \<lparr>host = h, port = po, user = u, password = w, protocol = pr\<rparr>"
    using assms 2(1) by (simp add: ParseProxy_def FindStringSubmatch_def Let_def)
  with 2 show ?thesis by blast
qed

lemma ParseProxy_split:
  assumes "rmatch protocolWithAuthPattern (TrimSpace s) = None"
    and "rmatch protocolNoAuthPattern (TrimSpace s) = None"
    and "strip_protocol (TrimSpace s) = Some (pr, rem)"
    and "rmatch userPassHostPattern rem = None"
  shows "ParseProxy s = switch_parts pr (Split rem CHR '':'')"
  using assms by (simp add: ParseProxy_def FindStringSubmatch_def Let_def)

lemma length_4E: "length xs = 4 \<Longrightarrow> \<exists>a b c d. xs = [a, b, c, d]"
  by (cases xs; simp; cases "tl xs"; simp; cases "tl (tl xs)"; simp; cases "tl (tl (tl xs))"; simp)

lemma length_3E: "length xs = 3 \<Longrightarrow> \<exists>a b c. xs = [a, b, c]"
  by (cases xs; simp; cases "tl xs"; simp; cases "tl (tl xs)"; simp)

lemma length_2E: "length xs = 2 \<Longrightarrow> \<exists>a b. xs = [a, b]"
  by (cases xs; simp; cases "tl xs"; simp)

lemma switch_parts_total: "\<exists>d. switch_parts pr parts = Some d"
proof -
  consider "length parts = 4" | "length parts = 3" | "length parts = 2"
    | "length parts \<noteq> 4" "length parts \<noteq> 3" "length parts \<noteq> 2" by blast
  then show ?thesis
  proof cases
    case 1
    then obtain a b c d where "parts = [a, b, c, d]" by (blast dest: length_4E)
    then show ?thesis by (simp add: switch_parts_def)
  next
    case 2
    then obtain a b c where "parts = [a, b, c]" by (blast dest: length_3E)
    then show ?thesis by (simp add: switch_parts_def)
  next
    case 3
    then obtain a b where "parts = [a, b]" by (blast dest: length_2E)
    then show ?thesis by (simp add: switch_parts_def)
  next
    case 4
    then show ?thesis by (simp add: switch_parts_def)
  qed
qed

lemma ParseProxy_total: "\<exists>d. ParseProxy s = Some d"
proof (cases "rmatch protocolWithAuthPattern (TrimSpace s)")
  case (Some m)
  then show ?thesis by (cases m) (blast dest: ParseProxy_withAuth)
next
  case None
  note n1 = this
  show ?thesis
  proof (cases "rmatch protocolNoAuthPattern (TrimSpace s)")
    case (Some m)
    with n1 show ?thesis by (cases m) (blast dest: ParseProxy_noAuth)
  next
    case None
    note n2 = this
    from strip_protocol_cases[of "TrimSpace s"] obtain pr rem
      where st: "strip_protocol (TrimSpace s) = Some (pr, rem)" by blast
    show ?thesis
    proof (cases "rmatch userPassHostPattern rem")
      case (Some m)
      with n1 n2 st show ?thesis by (cases m) (blast dest: ParseProxy_userPassHost)
    next
      case None
      with n1 n2 st have "ParseProxy s = switch_parts pr (Split rem CHR '':'')"
        by (rule ParseProxy_split)
      then show ?thesis using switch_parts_total by simp
    qed
  qed
qed

lemma split_stepD:
  assumes "split_step s = Some parts"
  shows "\<exists>pr rem. (pr = '''' \<or> pr \<in> set protocols) \<and>
           rmatch protocolWithAuthPattern (TrimSpace s) = None \<and>
           rmatch protocolNoAuthPattern (TrimSpace s) = None \<and>
           strip_protocol (TrimSpace s) = Some (pr, rem) \<and>
           rmatch userPassHostPattern rem = None \<and>
           parts = Split rem CHR '':'' \<and>
           ParseProxy s = switch_parts pr parts"
proof -
  from assms have n: "rmatch protocolWithAuthPattern (TrimSpace s) = None"
      "rmatch protocolNoAuthPattern (TrimSpace s) = None"
    by (auto simp: split_step_def Let_def split: if_splits)
  from strip_protocol_cases[of "TrimSpace s"] obtain pr rem
    where st: "strip_protocol (TrimSpace s) = Some (pr, rem)" "pr = '''' \<or> pr \<in> set protocols"
    by auto
  from assms n st have r: "rmatch userPassHostPattern rem = None" "parts = Split rem CHR '':''"
    by (auto simp: split_step_def Let_def split: if_splits)
  from n st(1) r(1) have "ParseProxy s = switch_parts pr (Split rem CHR '':'')"
    by (rule ParseProxy_split)
  with n st r show ?thesis by blast
qed

lemma split_stepI:
  assumes "rmatch protocolWithAuthPattern (TrimSpace s) = None"
    and "rmatch protocolNoAuthPattern (TrimSpace s) = None"
    and "strip_protocol (TrimSpace s) = Some (pr, rem)"
    and "rmatch userPassHostPattern rem = None"
  shows "split_step s = Some (Split rem CHR '':'')"
  using assms by (simp add: split_step_def)

lemma switch_parts_protocol:
  assumes "switch_parts pr parts = Some d" and "pr = '''' \<or> pr \<in> set protocols"
  shows "d = empty_descriptor \<or> protocol d \<in> set protocols"
proof -
  consider "length parts = 4" | "length parts = 3" | "length parts = 2"
    | "length parts \<noteq> 4" "length parts \<noteq> 3" "length parts \<noteq> 2" by blast
  then show ?thesis
  proof cases
    case 1
    then obtain a b c e where "parts = [a, b, c, e]" by (blast dest: length_4E)
    with assms show ?thesis
      by (auto simp: switch_parts_def default_protocol_def protocols_def)
  next
    case 2
    then obtain a b c where "parts = [a, b, c]" by (blast dest: length_3E)
    with assms show ?thesis
      by (auto simp: switch_parts_def default_protocol_def protocols_def split: if_splits)
  next
    case 3
    then obtain a b where "parts = [a, b]" by (blast dest: length_2E)
    with assms show ?thesis
      by (auto simp: switch_parts_def default_protocol_def protocols_def)
  next
    case 4
    with assms show ?thesis by (simp add: switch_parts_def)
  qed
qed

lemma switch_parts_other:
  "length parts \<noteq> 4 \<Longrightarrow> length parts \<noteq> 3 \<Longrightarrow> length parts \<noteq> 2 \<Longrightarrow>
   switch_parts pr parts = Some empty_descriptor"
  by (simp add: switch_parts_def)

lemma Split_no_sep: "c \<notin> set s \<Longrightarrow> Split s c = [s]"
  by (induction s) auto

lemma no_colon_no_match:
  assumes "CHR '':'' \<notin> set t"
  shows "rmatch protocolWithAuthPattern t = None" "rmatch protocolNoAuthPattern t = None"
    "rmatch protocolPrefix t = None" "rmatch userPassHostPattern t = None"
proof -
  show "rmatch protocolWithAuthPattern t = None"
  proof (cases "rmatch protocolWithAuthPattern t")
    case (Some m)
    then obtain pr rest where "t = pr @ ''://'' @ rest"
      by (cases m) (blast dest: protocolWithAuth_sound)
    with assms show ?thesis by simp
  qed simp
  show "rmatch protocolNoAuthPattern t = None"
  proof (cases "rmatch protocolNoAuthPattern t")
    case (Some m)
    then obtain pr h po where "t = pr @ ''://'' @ h @ '':'' @ po"
      by (cases m) (blast dest: protocolNoAuth_sound)
    with assms show ?thesis by simp
  qed simp
  show "rmatch protocolPrefix t = None"
  proof (cases "rmatch protocolPrefix t")
    case (Some m)
    then obtain pr s' where "t = pr @ '':'' @ s'"
      by (cases m) (blast dest: protocolPrefix_sound)
    with assms show ?thesis by simp
  qed simp
  show "rmatch userPassHostPattern t = None"
  proof (cases "rmatch userPassHostPattern t")
    case (Some m)
    then obtain u w h po where "t = u @ '':'' @ w @ ''@'' @ h @ '':'' @ po"
      by (cases m) (blast dest: userPassHost_sound)
    with assms show ?thesis by simp
  qed simp
qed

lemma no_colon_split_step:
  assumes "CHR '':'' \<notin> set s"
  shows "split_step s = Some [TrimSpace s]" "ParseProxy s = Some empty_descriptor"
proof -
  from assms set_TrimSpace[of s] have nc: "CHR '':'' \<notin> set (TrimSpace s)" by blast
  note nm = no_colon_no_match[OF nc]
  from nm(3) have st: "strip_protocol (TrimSpace s) = Some ('''', TrimSpace s)"
    by (simp add: strip_protocol_def FindStringSubmatch_def)
  from nm(1,2) st nm(4) have "split_step s = Some (Split (TrimSpace s) CHR '':'')"
    by (rule split_stepI)
  with nc show 1: "split_step s = Some [TrimSpace s]" by (simp add: Split_no_sep)
  from nm(1,2) st nm(4) have "ParseProxy s = switch_parts '''' (Split (TrimSpace s) CHR '':'')"
    by (rule ParseProxy_split)
  with nc show "ParseProxy s = Some empty_descriptor"
    by (simp add: Split_no_sep switch_parts_def)
qed

lemma format_descriptor_empty_iff:
  "format_descriptor d = '''' \<longleftrightarrow> \<not> valid_descriptor d"
  by (simp add: format_descriptor_def valid_descriptor_def)

section \<open>Properties of the pipeline\<close>

lemma ConvertProxyFormat_total: "\<exists>f. ConvertProxyFormat p = Some f"
  using ParseProxy_total[of p] by (auto simp: ConvertProxyFormat_def)

lemma GetOutboundIP_total: "\<exists>ip w'. GetOutboundIP env w p = Some (ip, w')"
proof -
  obtain f where "ConvertProxyFormat p = Some f" using ConvertProxyFormat_total by blast
  then show ?thesis
    by (auto simp: GetOutboundIP_def split: prod.splits http_outcome.splits body.splits
        option.splits)
qed

lemma ValidateProxy_total: "\<exists>ok w'. ValidateProxy env w p = Some (ok, w')"
proof -
  obtain f where "ConvertProxyFormat p = Some f" using ConvertProxyFormat_total by blast
  then show ?thesis
    by (auto simp: ValidateProxy_def split: prod.splits http_outcome.splits)
qed

lemma measure_all_total:
  "\<exists>ms w'. measure_all env k st w ps = Some (ms, w') \<and> length ms = length ps"
proof (induction ps arbitrary: w)
  case Nil
  show ?case by simp
next
  case (Cons p ps)
  obtain ip w1 where g: "GetOutboundIP env w p = Some (ip, w1)"
    using GetOutboundIP_total[of env w p] by blast
  show ?case
  proof (cases "ip = ''''")
    case True
    from Cons.IH[of w1] obtain ms w' where "measure_all env k st w1 ps = Some (ms, w')"
      "length ms = length ps" by blast
    with g True show ?thesis by simp
  next
    case False
    obtain sc w2 where c: "CheckIPRiskScore env w1 ip k st = (sc, w2)"
      by (cases "CheckIPRiskScore env w1 ip k st")
    from Cons.IH[of w2] obtain ms w' where "measure_all env k st w2 ps = Some (ms, w')"
      "length ms = length ps" by blast
    with g False c show ?thesis by simp
  qed
qed

lemma FilterProxies_loop_measure:
  "measure_all env k st w ps = Some (ms, w') \<Longrightarrow>
   FilterProxies_loop env k st ps acc w = Some (acc @ map fst (filter clean (zip ps ms)), w')"
proof (induction ps arbitrary: w ms acc)
  case Nil
  then show ?case by simp
next
  case (Cons p ps)
  obtain ip w1 where g: "GetOutboundIP env w p = Some (ip, w1)"
    using GetOutboundIP_total[of env w p] by blast
  show ?case
  proof (cases "ip = ''''")
    case True
    with Cons.prems g obtain ms' where ms: "measure_all env k st w1 ps = Some (ms', w')"
        "ms = (ip, None) # ms'"
      by (auto split: option.splits)
    from Cons.IH[OF ms(1), of acc] g True ms(2) show ?thesis
      by (simp add: clean_def)
  next
    case False
    obtain sc w2 where c: "CheckIPRiskScore env w1 ip k st = (sc, w2)"
      by (cases "CheckIPRiskScore env w1 ip k st")
    with Cons.prems g False obtain ms' where ms: "measure_all env k st w2 ps = Some (ms', w')"
        "ms = (ip, Some sc) # ms'"
      by (auto split: option.splits)
    show ?thesis
    proof (cases "sc = 0")
      case True
      from Cons.IH[OF ms(1), of "acc @ [p]"] g False c ms(2) True show ?thesis
        by (simp add: clean_def)
    next
      case nz: False
      from Cons.IH[OF ms(1), of acc] g False c ms(2) nz show ?thesis
        by (simp add: clean_def)
    qed
  qed
qed

lemma subseq_filter_zip:
  "length ms = length ps \<Longrightarrow> subseq (map fst (filter P (zip ps ms))) ps"
proof (induction ps ms rule: list_induct2')
  case (4 p ps m ms)
  then show ?case by (cases "P (p, m)") auto
qed simp_all

lemma validate_loop_total: "\<exists>r w'. validate_loop env ps acc w = Some (r, w')"
proof (induction ps arbitrary: acc w)
  case Nil
  show ?case by simp
next
  case (Cons p ps)
  obtain f where f: "ConvertProxyFormat p = Some f" using ConvertProxyFormat_total by blast
  show ?case
  proof (cases "f = ''''")
    case True
    with f Cons.IH[of acc w] show ?thesis by simp
  next
    case False
    obtain ok w1 where v: "ValidateProxy env w f = Some (ok, w1)"
      using ValidateProxy_total[of env w f] by blast
    with f False Cons.IH[of "acc @ [p]" w1] Cons.IH[of acc w1] show ?thesis
      by (cases ok) simp_all
  qed
qed

lemma FilterProxies_loop_acc:
  "\<exists>r w'. FilterProxies_loop env k st ps [] w = Some (r, w') \<and>
     FilterProxies_loop env k st ps acc w = Some (acc @ r, w')"
proof -
  obtain ms w' where m: "measure_all env k st w ps = Some (ms, w')"
    using measure_all_total[of env k st w ps] by blast
  from FilterProxies_loop_measure[OF m, of "[]"] FilterProxies_loop_measure[OF m, of acc]
  show ?thesis by simp
qed

lemma CheckIPRiskScore_cases:
  "fst (CheckIPRiskScore env w ip k st) =
     (if lookup_failed env w ip k st then - 1
      else (case fraud_score_field env w ip k st of Some n \<Rightarrow> n | None \<Rightarrow> - 1))"
  by (auto simp: CheckIPRiskScore_def lookup_failed_def fraud_score_field_def Let_def
      split: prod.splits http_outcome.splits body.splits option.splits)

lemma fraud_score_field_defined:
  "\<not> lookup_failed env w ip k st \<Longrightarrow> \<exists>n. fraud_score_field env w ip k st = Some n"
  by (auto simp: lookup_failed_def fraud_score_field_def Let_def
      split: prod.splits http_outcome.splits body.splits option.splits)

section \<open>Re-parsing a formatted proxy\<close>

lemma ParseProxy_TrimSpace: "ParseProxy (TrimSpace s) = ParseProxy s"
  by (simp add: ParseProxy_def TrimSpace_idem)

lemma leading_space_nonspace:
  assumes "c \<notin> {CHR 0x09, CHR 0x0A, CHR 0x0B, CHR 0x0C, CHR 0x0D, CHR 0x20,
        CHR 0xC2, CHR 0xE1, CHR 0xE2, CHR 0xE3}"
  shows "leading_space (c # s) = 0"
  unfolding leading_space_0_iff
proof
  fix e assume e: "e \<in> set space_encodings"
  show "\<not> prefix e (c # s)"
  proof
    assume "prefix e (c # s)"
    with e have "c \<in> {CHR 0x09, CHR 0x0A, CHR 0x0B, CHR 0x0C, CHR 0x0D, CHR 0x20,
        CHR 0xC2, CHR 0xE1, CHR 0xE2, CHR 0xE3}" by (rule space_first_byte)
    with assms show False by contradiction
  qed
qed

lemma trailing_space_nonspace:
  assumes "c \<notin> {CHR 0x09, CHR 0x0A, CHR 0x0B, CHR 0x0C, CHR 0x0D, CHR 0x20,
        CHR 0x85, CHR 0xA0, CHR 0x80, CHR 0x81, CHR 0x82, CHR 0x83, CHR 0x84, CHR 0x86,
        CHR 0x87, CHR 0x88, CHR 0x89, CHR 0x8A, CHR 0xA8, CHR 0xA9, CHR 0xAF, CHR 0x9F}"
  shows "trailing_space (s @ [c]) = 0"
  unfolding trailing_space_0_iff
proof
  fix e assume e: "e \<in> set space_encodings"
  show "\<not> suffix e (s @ [c])"
  proof
    assume "suffix e (s @ [c])"
    with e have "c \<in> {CHR 0x09, CHR 0x0A, CHR 0x0B, CHR 0x0C, CHR 0x0D, CHR 0x20,
        CHR 0x85, CHR 0xA0, CHR 0x80, CHR 0x81, CHR 0x82, CHR 0x83, CHR 0x84, CHR 0x86,
        CHR 0x87, CHR 0x88, CHR 0x89, CHR 0x8A, CHR 0xA8, CHR 0xA9, CHR 0xAF, CHR 0x9F}"
      by (rule space_last_byte)
    with assms show False by contradiction
  qed
qed

lemma leading_space_protocol:
  assumes "pr \<in> set protocols"
  shows "leading_space (pr @ x) = 0"
proof -
  from assms consider "pr = ''http''" | "pr = ''https''" | "pr = ''socks5''"
    by (auto simp: protocols_def)
  then show ?thesis by cases (simp_all add: leading_space_nonspace)
qed

lemma digit_not_space:
  assumes "c \<in> set ''0123456789''"
  shows "c \<notin> {CHR 0x09, CHR 0x0A, CHR 0x0B, CHR 0x0C, CHR 0x0D, CHR 0x20,
        CHR 0x85, CHR 0xA0, CHR 0x80, CHR 0x81, CHR 0x82, CHR 0x83, CHR 0x84, CHR 0x86,
        CHR 0x87, CHR 0x88, CHR 0x89, CHR 0x8A, CHR 0xA8, CHR 0xA9, CHR 0xAF, CHR 0x9F}"
  using assms by auto

lemma trailing_space_digits:
  assumes "all_digits po"
  shows "trailing_space (x @ po) = 0"
proof -
  from assms have ne: "po \<noteq> []" and d: "last po \<in> set ''0123456789''"
    by (auto simp: all_digits_def list_all_iff)
  from ne have "x @ po = (x @ butlast po) @ [last po]" by simp
  moreover from d have "trailing_space ((x @ butlast po) @ [last po]) = 0"
    by (intro trailing_space_nonspace digit_not_space)
  ultimately show ?thesis by (simp only:)
qed

lemma TrimSpace_formatted:
  "pr \<in> set protocols \<Longrightarrow> all_digits po \<Longrightarrow> TrimSpace (pr @ x @ po) = pr @ x @ po"
  using trailing_space_digits[of po "pr @ x"] leading_space_protocol[of pr "x @ po"]
  by (simp add: TrimSpace_fix)

lemma protocols_no_colon: "pr \<in> set protocols \<Longrightarrow> CHR '':'' \<notin> set pr"
  by (auto simp: protocols_def)

lemma protocol_prefix_unique:
  "pr \<in> set protocols \<Longrightarrow> pr' \<in> set protocols \<Longrightarrow>
   pr @ CHR '':'' # x = pr' @ CHR '':'' # y \<Longrightarrow> pr = pr' \<and> x = y"
  by (auto simp: protocols_def)

lemma protocolWithAuth_complete:
  assumes "pr \<in> set protocols" and "rmatch userPassHostPattern rem = Some (cs, r)"
  shows "rmatch protocolWithAuthPattern (pr @ ''://'' @ rem) = Some (pr # cs, r)"
proof -
  from assms(1) consider "pr = ''http''" | "pr = ''https''" | "pr = ''socks5''"
    by (auto simp: protocols_def)
  then show ?thesis
    using assms(2)
    by cases (simp_all add: protocolWithAuthPattern_def protocols_def rmatch_CapAlt rmatch_Lit)
qed

lemma protocolPrefix_complete:
  assumes "pr \<in> set protocols"
  shows "rmatch protocolPrefix (pr @ ''://'' @ rem) = Some ([pr], rem)"
proof -
  from assms(1) consider "pr = ''http''" | "pr = ''https''" | "pr = ''socks5''"
    by (auto simp: protocols_def)
  then show ?thesis
    by cases (simp_all add: protocolPrefix_def protocols_def rmatch_CapAlt rmatch_Lit rmatch_OptChar)
qed

lemma rmatch_Lit_absent:
  "c \<notin> set s \<Longrightarrow> rmatch (Lit (c # l) # p) s = None"
  by (auto simp: rmatch_Lit dest: set_mono_prefix)

lemma set_drop_past:
  assumes "length x < j"
  shows "set (drop j (x @ c # y)) \<subseteq> set y"
proof -
  from assms obtain n where "j = length x + Suc n" by (metis less_iff_Suc_add add_Suc_right)
  then have "drop j (x @ c # y) = drop n y" by simp
  then show ?thesis by (simp add: set_drop_subset)
qed

lemma digits_no_colon_at:
  assumes "\<forall>c \<in> set po. in_cls Digit c"
  shows "CHR '':'' \<notin> set po" "CHR ''@'' \<notin> set po"
proof -
  have "\<not> in_cls Digit CHR '':''" "\<not> in_cls Digit CHR ''@''" by simp_all
  with assms show "CHR '':'' \<notin> set po" "CHR ''@'' \<notin> set po" by blast+
qed

lemma count_list_drop_le: "count_list (drop n xs) c \<le> count_list xs c"
proof -
  have "count_list xs c = count_list (take n xs) c + count_list (drop n xs) c"
    by (metis append_take_drop_id count_list_append)
  then show ?thesis by simp
qed

lemma port_complete:
  assumes "po \<noteq> []" "\<forall>c \<in> set po. in_cls Digit c"
  shows "rmatch [CapPlus Digit, Eos] po = Some ([po], [])"
proof -
  have "rmatch (CapPlus Digit # [Eos]) (po @ []) = Some (po # [], [])"
  proof (rule rmatch_CapPlus_greedy)
    show "po \<noteq> []" "\<forall>c \<in> set po. in_cls Digit c" by fact+
    show "rmatch [Eos] [] = Some ([], [])" by simp
  next
    fix j assume "length po < j" "j \<le> length (po @ [])"
    then show "rmatch [Eos] (drop j (po @ [])) = None" by simp
  qed
  then show ?thesis by simp
qed

lemma host_port_complete:
  assumes "h \<noteq> []" "\<forall>c \<in> set h. in_cls AnyChar c"
    and "po \<noteq> []" "\<forall>c \<in> set po. in_cls Digit c"
  shows "rmatch [CapPlus AnyChar, Lit '':'', CapPlus Digit, Eos] (h @ '':'' @ po) = Some ([h, po], [])"
proof (rule rmatch_CapPlus_greedy)
  show "h \<noteq> []" "\<forall>c \<in> set h. in_cls AnyChar c" by fact+
  show "rmatch [Lit '':'', CapPlus Digit, Eos] ('':'' @ po) = Some ([po], [])"
    using port_complete[OF assms(3,4)] by (simp only: rmatch_Lit_append)
next
  fix j assume "length h < j"
  then have "set (drop j (h @ '':'' @ po)) \<subseteq> set po"
    using set_drop_past[of h j "CHR '':''" po] by simp
  with digits_no_colon_at(1)[OF assms(4)] have "CHR '':'' \<notin> set (drop j (h @ '':'' @ po))"
    by blast
  then show "rmatch [Lit '':'', CapPlus Digit, Eos] (drop j (h @ '':'' @ po)) = None"
    by (rule rmatch_Lit_absent)
qed

lemma pass_tail_has_colon:
  assumes "rmatch [CapPlus AnyChar, Lit ''@'', CapPlus AnyChar, Lit '':'', CapPlus Digit, Eos] z
      = Some m"
  shows "CHR '':'' \<in> set z"
proof -
  obtain cs r where m: "m = (cs, r)" by (cases m)
  from assms[unfolded m] obtain w s3 c3 where 3: "z = w @ s3"
      "rmatch [Lit ''@'', CapPlus AnyChar, Lit '':'', CapPlus Digit, Eos] s3 = Some (c3, r)"
    by (blast dest: rmatch_CapPlusD)
  from 3(2) obtain s4 where 4: "s3 = ''@'' @ s4"
      "rmatch [CapPlus AnyChar, Lit '':'', CapPlus Digit, Eos] s4 = Some (c3, r)"
    by (blast dest: rmatch_LitD)
  from 4(2) obtain h s5 c5 where 5: "s4 = h @ s5"
      "rmatch [Lit '':'', CapPlus Digit, Eos] s5 = Some (c5, r)"
    by (blast dest: rmatch_CapPlusD)
  from 5(2) obtain s6 where 6: "s5 = '':'' @ s6"
    by (blast dest: rmatch_LitD)
  from 3(1) 4(1) 5(1) 6 show ?thesis by simp
qed

lemma count_list_pos: "c \<in> set xs \<Longrightarrow> 0 < count_list xs c"
  by (induction xs) auto

lemma Split_nonempty: "Split s c \<noteq> []"
  by (induction s) (auto split: list.splits)

lemma Split_parts_no_sep: "p \<in> set (Split s c) \<Longrightarrow> c \<notin> set p"
proof (induction s arbitrary: p)
  case Nil
  then show ?case by simp
next
  case (Cons x xs)
  show ?case
  proof (cases "x = c")
    case True
    with Cons show ?thesis by auto
  next
    case False
    obtain q qs where q: "Split xs c = q # qs"
      using Split_nonempty[of xs c] by (cases "Split xs c") auto
    with Cons.prems False have "p = x # q \<or> p \<in> set qs" by simp
    moreover have "c \<notin> set q" using Cons.IH[of q] q by simp
    moreover have "p \<in> set qs \<Longrightarrow> c \<notin> set p" using Cons.IH[of p] q by simp
    ultimately show ?thesis using False by auto
  qed
qed

lemma Split_append_sep: "c \<notin> set a \<Longrightarrow> Split (a @ c # b) c = a # Split b c"
  by (induction a) auto

lemma last_sep_unique:
  fixes a b :: string
  assumes "a @ c # b = a' @ c # b'" and "c \<notin> set b" and "c \<notin> set b'"
  shows "a = a' \<and> b = b'"
proof -
  have "Split (rev (a @ c # b)) c = rev b # Split (rev a) c"
    using assms(2) Split_append_sep[of c "rev b" "rev a"] by simp
  moreover have "Split (rev (a' @ c # b')) c = rev b' # Split (rev a') c"
    using assms(3) Split_append_sep[of c "rev b'" "rev a'"] by simp
  ultimately have "rev b = rev b'" using assms(1) by simp
  then have "b = b'" by simp
  with assms(1) show ?thesis by simp
qed

lemma ParseProxy_withAuth_eq:
  "rmatch protocolWithAuthPattern (TrimSpace s) = Some ([pr, u, w, h, po], r) \<Longrightarrow>
   ParseProxy s = Some \<lparr>host = h, port = po, user = u, password = w, protocol = pr\<rparr>"
  by (simp add: ParseProxy_def FindStringSubmatch_def Let_def)

lemma ParseProxy_noAuth_eq:
  "rmatch protocolWithAuthPattern (TrimSpace s) = None \<Longrightarrow>
   rmatch protocolNoAuthPattern (TrimSpace s) = Some ([pr, h, po], r) \<Longrightarrow>
   ParseProxy s = Some \<lparr>host = h, port = po, user = '''', password = '''', protocol = pr\<rparr>"
  by (simp add: ParseProxy_def FindStringSubmatch_def Let_def)

lemma digits_all_digits:
  "po \<noteq> [] \<Longrightarrow> \<forall>c \<in> set po. in_cls Digit c \<Longrightarrow> all_digits po"
  by (simp add: all_digits_def list_all_iff)

lemma all_digitsD:
  "all_digits po \<Longrightarrow> po \<noteq> [] \<and> (\<forall>c \<in> set po. in_cls Digit c)"
  by (simp add: all_digits_def list_all_iff)

lemma roundtrip_withAuth:
  assumes "rmatch protocolWithAuthPattern (TrimSpace s) = Some m" and "ParseProxy s = Some d"
  shows "ParseProxy (format_descriptor d) = Some d"
proof -
  from assms(1) obtain pr u w h po where 1:
      "TrimSpace s = pr @ ''://'' @ u @ '':'' @ w @ ''@'' @ h @ '':'' @ po"
      "u \<noteq> []" "w \<noteq> []" "h \<noteq> []" "po \<noteq> []"
      "ParseProxy s = Some \<lparr>host = h, port = po, user = u, password = w, protocol = pr\<rparr>"
    by (cases m) (blast dest: ParseProxy_withAuth)
  from assms(2) 1(6)
  have d: "d = \<lparr>host = h, port = po, user = u, password = w, protocol = pr\<rparr>" by simp
  with 1 have "format_descriptor d = TrimSpace s"
    by (simp add: format_descriptor_def)
  with assms(2) show ?thesis by (simp add: ParseProxy_TrimSpace)
qed

lemma roundtrip_noAuth:
  assumes "rmatch protocolWithAuthPattern (TrimSpace s) = None"
    and "rmatch protocolNoAuthPattern (TrimSpace s) = Some m" and "ParseProxy s = Some d"
  shows "ParseProxy (format_descriptor d) = Some d"
proof -
  from assms(1,2) obtain pr h po where 1:
      "TrimSpace s = pr @ ''://'' @ h @ '':'' @ po" "h \<noteq> []" "po \<noteq> []"
      "ParseProxy s = Some \<lparr>host = h, port = po, user = '''', password = '''', protocol = pr\<rparr>"
    by (cases m) (blast dest: ParseProxy_noAuth)
  from assms(3) 1(4)
  have d: "d = \<lparr>host = h, port = po, user = '''', password = '''', protocol = pr\<rparr>" by simp
  with 1 have "format_descriptor d = TrimSpace s"
    by (simp add: format_descriptor_def)
  with assms(3) show ?thesis by (simp add: ParseProxy_TrimSpace)
qed

lemma roundtrip_userPassHost:
  assumes "rmatch protocolWithAuthPattern (TrimSpace s) = None"
    and "rmatch protocolNoAuthPattern (TrimSpace s) = None"
    and "strip_protocol (TrimSpace s) = Some (pr, rem)"
    and "rmatch userPassHostPattern rem = Some m"
    and "ParseProxy s = Some d" and "protocol d \<noteq> ''''"
  shows "ParseProxy (format_descriptor d) = Some d"
proof -
  obtain cs r where m: "m = (cs, r)" by (cases m)
  from assms(4)[unfolded m] obtain u w h po where 2: "cs = [u, w, h, po]" "r = []"
      "rem = u @ '':'' @ w @ ''@'' @ h @ '':'' @ po"
      "u \<noteq> []" "w \<noteq> []" "h \<noteq> []" "po \<noteq> []" "\<forall>c \<in> set po. in_cls Digit c"
    by (blast dest: userPassHost_sound)
  from assms(1-4) m 2(1) have "ParseProxy s
      = Some \<lparr>host = h, port = po, user = u, password = w, protocol = pr\<rparr>"
    by (simp add: ParseProxy_def FindStringSubmatch_def Let_def)
  with assms(5) have d: "d = \<lparr>host = h, port = po, user = u, password = w, protocol = pr\<rparr>"
    by simp
  with assms(6) have "pr \<noteq> ''''" by simp
  with strip_protocol_cases[of "TrimSpace s"] assms(3) have pr: "pr \<in> set protocols" by auto
  let ?f = "pr @ ''://'' @ rem"
  from d 2 have f: "format_descriptor d = ?f" by (simp add: format_descriptor_def)
  have "TrimSpace (pr @ (''://'' @ u @ '':'' @ w @ ''@'' @ h @ '':'') @ po)
      = pr @ (''://'' @ u @ '':'' @ w @ ''@'' @ h @ '':'') @ po"
    using pr digits_all_digits[OF 2(7,8)] by (rule TrimSpace_formatted)
  with 2(3) have t: "TrimSpace ?f = ?f" by simp
  from pr assms(4)[unfolded m 2(1) 2(2)]
  have "rmatch protocolWithAuthPattern ?f = Some ([pr, u, w, h, po], [])"
    by (rule protocolWithAuth_complete)
  with t have "ParseProxy ?f
      = Some \<lparr>host = h, port = po, user = u, password = w, protocol = pr\<rparr>"
    by (intro ParseProxy_withAuth_eq) simp
  with f d show ?thesis by simp
qed

lemma space_encodings_no_colon: "e \<in> set space_encodings \<Longrightarrow> CHR '':'' \<notin> set e"
  by (auto simp: space_encodings_def)

lemma trailing_space_after_colon:
  assumes "trailing_space po = 0"
  shows "trailing_space (x @ CHR '':'' # po) = 0"
  unfolding trailing_space_0_iff
proof
  fix e assume e: "e \<in> set space_encodings"
  show "\<not> suffix e (x @ CHR '':'' # po)"
  proof
    assume "suffix e (x @ CHR '':'' # po)"
    then have "suffix e (CHR '':'' # po) \<or> (\<exists>y. e = y @ CHR '':'' # po)"
      by (auto simp: suffix_append)
    then have "suffix e po \<or> CHR '':'' \<in> set e"
      by (auto simp: suffix_Cons)
    moreover from assms e have "\<not> suffix e po" by (simp add: trailing_space_0_iff)
    ultimately show False using space_encodings_no_colon[OF e] by blast
  qed
qed

lemma TrimSpace_formatted_colon:
  assumes "pr \<in> set protocols" and "trailing_space po = 0"
  shows "TrimSpace (pr @ x @ CHR '':'' # po) = pr @ x @ CHR '':'' # po"
proof -
  have "trailing_space ((pr @ x) @ CHR '':'' # po) = 0"
    using assms(2) by (rule trailing_space_after_colon)
  moreover have "leading_space (pr @ x @ CHR '':'' # po) = 0"
    using assms(1) by (rule leading_space_protocol)
  ultimately show ?thesis by (simp add: TrimSpace_fix)
qed

lemma host_port_shape:
  assumes "rmatch [CapPlus AnyChar, Lit '':'', CapPlus Digit, Eos] z = Some m"
  shows "\<exists>x y. z = x @ CHR '':'' # y \<and> x \<noteq> []"
proof -
  obtain cs r where m: "m = (cs, r)" by (cases m)
  from assms[unfolded m] obtain x s5 c5 where 5: "z = x @ s5" "x \<noteq> []"
      "rmatch [Lit '':'', CapPlus Digit, Eos] s5 = Some (c5, r)"
    by (blast dest: rmatch_CapPlusD)
  from 5(3) obtain s6 where "s5 = '':'' @ s6" by (blast dest: rmatch_LitD)
  with 5(1) have "z = x @ CHR '':'' # s6" by simp
  with 5(2) show ?thesis by blast
qed

text \<open>
  The greedy password group ends at the last \<open>@\<close> that leaves a non-empty host: the
  host is found again when it has no \<open>@\<close> before its last character.
\<close>

lemma pass_host_port_complete:
  assumes "w \<noteq> []" "\<forall>c \<in> set w. in_cls AnyChar c"
    and "h \<noteq> []" "\<forall>c \<in> set h. in_cls AnyChar c" "CHR ''@'' \<notin> set (butlast h)"
      "CHR '':'' \<notin> set h"
    and "po \<noteq> []" "\<forall>c \<in> set po. in_cls Digit c"
  shows "rmatch [CapPlus AnyChar, Lit ''@'', CapPlus AnyChar, Lit '':'', CapPlus Digit, Eos]
           (w @ ''@'' @ h @ '':'' @ po) = Some ([w, h, po], [])"
proof (rule rmatch_CapPlus_greedy)
  let ?tail = "[CapPlus AnyChar, Lit '':'', CapPlus Digit, Eos]"
  let ?hp = "h @ CHR '':'' # po"
  show "w \<noteq> []" "\<forall>c \<in> set w. in_cls AnyChar c" by fact+
  show "rmatch (Lit ''@'' # ?tail) (''@'' @ h @ '':'' @ po) = Some ([h, po], [])"
    using host_port_complete[OF assms(3,4,7,8)] by (simp only: rmatch_Lit_append)
  fix j assume "length w < j"
  then obtain n where j: "j = length w + Suc n" by (metis less_iff_Suc_add add_Suc_right)
  then have dr: "drop j (w @ ''@'' @ h @ '':'' @ po) = drop n ?hp" by simp
  have poc: "CHR '':'' \<notin> set po" using assms(8) by (rule digits_no_colon_at(1))
  have one: "count_list ?hp CHR '':'' = 1" using assms(6) poc by simp
  show "rmatch (Lit ''@'' # ?tail) (drop j (w @ ''@'' @ h @ '':'' @ po)) = None"
  proof (cases "rmatch (Lit ''@'' # ?tail) (drop n ?hp)")
    case None
    with dr show ?thesis by (simp only:)
  next
    case (Some m)
    then obtain z where z: "drop n ?hp = ''@'' @ z" "rmatch ?tail z = Some m"
      by (blast dest: rmatch_LitD)
    from z(2) obtain x y where xy: "z = x @ CHR '':'' # y" "x \<noteq> []"
      by (blast dest: host_port_shape)
    obtain t where t: "?hp = t @ drop n ?hp" by (metis append_take_drop_id)
    with z(1) xy(1) have eq: "?hp = (t @ CHR ''@'' # x) @ CHR '':'' # y" by simp
    have "count_list ((t @ CHR ''@'' # x) @ CHR '':'' # y) CHR '':'' = 1"
      using one eq by (simp only:)
    then have yc: "CHR '':'' \<notin> set y" by (simp add: count_list_0_iff)
    from eq poc yc have "h = t @ CHR ''@'' # x"
      by (blast dest: last_sep_unique)
    with xy(2) have "CHR ''@'' \<in> set (butlast h)"
      by (metis butlast_append butlast.simps(2) in_set_conv_decomp list.distinct(1))
    with assms(5) show ?thesis by contradiction
  qed
qed

lemma userPassHost_complete:
  assumes "u \<noteq> []" "\<forall>c \<in> set u. in_cls AnyChar c"
    and "w \<noteq> []" "\<forall>c \<in> set w. in_cls AnyChar c" "CHR '':'' \<notin> set w"
    and "h \<noteq> []" "\<forall>c \<in> set h. in_cls AnyChar c" "CHR ''@'' \<notin> set (butlast h)"
      "CHR '':'' \<notin> set h"
    and "po \<noteq> []" "\<forall>c \<in> set po. in_cls Digit c"
  shows "rmatch userPassHostPattern (u @ '':'' @ w @ ''@'' @ h @ '':'' @ po)
           = Some ([u, w, h, po], [])"
  unfolding userPassHostPattern_def
proof (rule rmatch_CapPlus_greedy)
  let ?rest = "w @ ''@'' @ h @ '':'' @ po"
  let ?tail = "[CapPlus AnyChar, Lit ''@'', CapPlus AnyChar, Lit '':'', CapPlus Digit, Eos]"
  show "u \<noteq> []" "\<forall>c \<in> set u. in_cls AnyChar c" by fact+
  show "rmatch (Lit '':'' # ?tail) ('':'' @ ?rest) = Some ([w, h, po], [])"
    using pass_host_port_complete[OF assms(3,4,6,7,8,9,10,11)] by (simp only: rmatch_Lit_append)
  fix j assume "length u < j"
  then obtain n where j: "j = length u + Suc n" by (metis less_iff_Suc_add add_Suc_right)
  then have dr: "drop j (u @ '':'' @ ?rest) = drop n ?rest" by simp
  have one: "count_list ?rest CHR '':'' = 1"
    using assms(5,9) digits_no_colon_at(1)[OF assms(11)] by simp
  show "rmatch (Lit '':'' # ?tail) (drop j (u @ '':'' @ ?rest)) = None"
  proof (cases "rmatch (Lit '':'' # ?tail) (drop n ?rest)")
    case None
    with dr show ?thesis by (simp only:)
  next
    case (Some m)
    then obtain z where z: "drop n ?rest = '':'' @ z" "rmatch ?tail z = Some m"
      by (blast dest: rmatch_LitD)
    from z(2) have "CHR '':'' \<in> set z" by (rule pass_tail_has_colon)
    then have "count_list z CHR '':'' > 0" by (rule count_list_pos)
    with z(1) have "count_list (drop n ?rest) CHR '':'' \<ge> 2" by simp
    moreover have "count_list (drop n ?rest) CHR '':'' \<le> count_list ?rest CHR '':''"
      by (rule count_list_drop_le)
    ultimately have False using one by simp
    then show ?thesis ..
  qed
qed

lemma switch_parts_fields:
  assumes "switch_parts pr0 parts = Some d" and "valid_descriptor d"
    and "\<forall>p \<in> set parts. CHR '':'' \<notin> set p" and "pr0 = '''' \<or> pr0 \<in> set protocols"
  shows "CHR '':'' \<notin> set (host d) \<and> CHR '':'' \<notin> set (port d) \<and> CHR '':'' \<notin> set (user d)
     \<and> CHR '':'' \<notin> set (password d) \<and> protocol d \<in> set protocols"
proof -
  consider "length parts = 4" | "length parts = 3" | "length parts = 2"
    | "length parts \<noteq> 4" "length parts \<noteq> 3" "length parts \<noteq> 2" by blast
  then show ?thesis
  proof cases
    case 1
    then obtain a b c e where "parts = [a, b, c, e]" by (blast dest: length_4E)
    with assms(1,3,4) show ?thesis
      by (auto simp: switch_parts_def default_protocol_def protocols_def)
  next
    case 2
    then obtain a b c where "parts = [a, b, c]" by (blast dest: length_3E)
    with assms(1,3,4) show ?thesis
      by (auto simp: switch_parts_def default_protocol_def protocols_def split: if_splits)
  next
    case 3
    then obtain a b where "parts = [a, b]" by (blast dest: length_2E)
    with assms(1,3,4) show ?thesis
      by (auto simp: switch_parts_def default_protocol_def protocols_def)
  next
    case 4
    with assms(1) have "d = empty_descriptor" by (simp add: switch_parts_def)
    with assms(2) show ?thesis by (simp add: valid_descriptor_def empty_descriptor_def)
  qed
qed

lemma withAuth_two_colons:
  assumes "rmatch protocolWithAuthPattern f = Some m"
  shows "3 \<le> count_list f CHR '':''"
proof -
  obtain cs r where m: "m = (cs, r)" by (cases m)
  from assms[unfolded m] obtain pr rest cs' where 1: "f = pr @ ''://'' @ rest"
      "rmatch userPassHostPattern rest = Some (cs', r)"
    by (blast dest: protocolWithAuth_sound)
  from 1(2) obtain u w h po where "rest = u @ '':'' @ w @ ''@'' @ h @ '':'' @ po"
    by (blast dest: userPassHost_sound)
  with 1(1) show ?thesis by simp
qed

lemma userPassHost_two_colons:
  assumes "rmatch userPassHostPattern f = Some m"
  shows "2 \<le> count_list f CHR '':''"
proof -
  obtain cs r where m: "m = (cs, r)" by (cases m)
  from assms[unfolded m] obtain u w h po where "f = u @ '':'' @ w @ ''@'' @ h @ '':'' @ po"
    by (blast dest: userPassHost_sound)
  then show ?thesis by simp
qed

lemma reparse_noauth:
  assumes pr: "pr \<in> set protocols" and h: "h \<noteq> []" "CHR '':'' \<notin> set h"
    and po: "po \<noteq> []" and poc: "CHR '':'' \<notin> set po" and ts: "trailing_space po = 0"
  shows "ParseProxy (pr @ ''://'' @ h @ '':'' @ po)
     = Some \<lparr>host = h, port = po, user = '''', password = '''', protocol = pr\<rparr>"
proof -
  let ?f = "pr @ ''://'' @ h @ '':'' @ po"
  have "TrimSpace (pr @ (''://'' @ h) @ CHR '':'' # po) = pr @ (''://'' @ h) @ CHR '':'' # po"
    using pr ts by (rule TrimSpace_formatted_colon)
  then have t: "TrimSpace ?f = ?f" by simp
  have cnt: "count_list ?f CHR '':'' = 2"
    using protocols_no_colon[OF pr] h(2) poc by simp
  have n1: "rmatch protocolWithAuthPattern ?f = None"
  proof (cases "rmatch protocolWithAuthPattern ?f")
    case (Some m)
    then have "3 \<le> count_list ?f CHR '':''" by (rule withAuth_two_colons)
    with cnt show ?thesis by simp
  qed simp
  show ?thesis
  proof (cases "rmatch protocolNoAuthPattern ?f")
    case (Some m)
    obtain cs r where m: "m = (cs, r)" by (cases m)
    from Some[unfolded m] obtain pr' h' po' where 2: "pr' \<in> set protocols" "cs = [pr', h', po']"
        "?f = pr' @ ''://'' @ h' @ '':'' @ po'" "\<forall>c \<in> set po'. in_cls Digit c"
      by (blast dest: protocolNoAuth_sound)
    from 2(3) have "pr @ CHR '':'' # (''//'' @ h @ '':'' @ po)
        = pr' @ CHR '':'' # (''//'' @ h' @ '':'' @ po')" by simp
    with pr 2(1) have e: "pr = pr'" "''//'' @ h @ '':'' @ po = ''//'' @ h' @ '':'' @ po'"
      by (blast dest: protocol_prefix_unique)+
    from e(2) have "h @ CHR '':'' # po = h' @ CHR '':'' # po'" by simp
    moreover have "CHR '':'' \<notin> set po'" using 2(4) by (rule digits_no_colon_at(1))
    ultimately have "h = h'" "po = po'" using poc by (blast dest: last_sep_unique)+
    with e(1) 2(2) Some m have "rmatch protocolNoAuthPattern ?f = Some ([pr, h, po], r)"
      by simp
    with n1 t show ?thesis by (intro ParseProxy_noAuth_eq) simp_all
  next
    case None
    have pre: "rmatch protocolPrefix ?f = Some ([pr], h @ '':'' @ po)"
      using pr by (rule protocolPrefix_complete)
    then have st: "strip_protocol ?f = Some (pr, h @ '':'' @ po)"
      by (simp add: strip_protocol_def FindStringSubmatch_def ReplaceAllString_def)
    have n4: "rmatch userPassHostPattern (h @ '':'' @ po) = None"
    proof (cases "rmatch userPassHostPattern (h @ '':'' @ po)")
      case (Some m)
      then have "2 \<le> count_list (h @ '':'' @ po) CHR '':''" by (rule userPassHost_two_colons)
      with h(2) poc show ?thesis by simp
    qed simp
    have "ParseProxy ?f = switch_parts pr (Split (h @ '':'' @ po) CHR '':'')"
      using n1 None st n4 t by (intro ParseProxy_split) simp_all
    moreover have "Split (h @ '':'' @ po) CHR '':'' = [h, po]"
      using h(2) poc by (simp add: Split_append_sep Split_no_sep)
    moreover have "pr \<noteq> ''''" using pr by (auto simp: protocols_def)
    ultimately show ?thesis by (simp add: switch_parts_def default_protocol_def)
  qed
qed

lemma reparse_auth:
  assumes pr: "pr \<in> set protocols" and ne: "u \<noteq> []" "w \<noteq> []" "h \<noteq> []"
    and po: "all_digits po"
    and col: "CHR '':'' \<notin> set w" "CHR '':'' \<notin> set h"
    and at: "CHR ''@'' \<notin> set (butlast h)"
    and nl: "CHR 0x0A \<notin> set (h @ u @ w)"
  shows "ParseProxy (pr @ ''://'' @ u @ '':'' @ w @ ''@'' @ h @ '':'' @ po)
     = Some \<lparr>host = h, port = po, user = u, password = w, protocol = pr\<rparr>"
proof -
  let ?rem = "u @ '':'' @ w @ ''@'' @ h @ '':'' @ po"
  let ?f = "pr @ ''://'' @ ?rem"
  from all_digitsD[OF po] have po': "po \<noteq> []" "\<forall>c \<in> set po. in_cls Digit c" by blast+
  from nl have cl: "\<forall>c \<in> set u. in_cls AnyChar c" "\<forall>c \<in> set w. in_cls AnyChar c"
      "\<forall>c \<in> set h. in_cls AnyChar c" by auto
  have "TrimSpace (pr @ (''://'' @ u @ '':'' @ w @ ''@'' @ h @ '':'') @ po)
      = pr @ (''://'' @ u @ '':'' @ w @ ''@'' @ h @ '':'') @ po"
    using pr po by (rule TrimSpace_formatted)
  then have t: "TrimSpace ?f = ?f" by simp
  have "rmatch userPassHostPattern ?rem = Some ([u, w, h, po], [])"
    using ne(1) cl(1) ne(2) cl(2) col(1) ne(3) cl(3) at col(2) po' by (rule userPassHost_complete)
  with pr have "rmatch protocolWithAuthPattern ?f = Some ([pr, u, w, h, po], [])"
    by (rule protocolWithAuth_complete)
  with t show ?thesis by (intro ParseProxy_withAuth_eq) simp
qed

lemma split_step_NoneD:
  assumes "split_step s = None"
  shows "(\<exists>m. rmatch protocolWithAuthPattern (TrimSpace s) = Some m)
     \<or> (rmatch protocolWithAuthPattern (TrimSpace s) = None
          \<and> (\<exists>m. rmatch protocolNoAuthPattern (TrimSpace s) = Some m))
     \<or> (rmatch protocolWithAuthPattern (TrimSpace s) = None
          \<and> rmatch protocolNoAuthPattern (TrimSpace s) = None
          \<and> (\<exists>pr rem m. strip_protocol (TrimSpace s) = Some (pr, rem)
                \<and> rmatch userPassHostPattern rem = Some m))"
proof -
  from strip_protocol_cases[of "TrimSpace s"] obtain pr rem
    where st: "strip_protocol (TrimSpace s) = Some (pr, rem)" by auto
  with assms show ?thesis
    by (cases "rmatch protocolWithAuthPattern (TrimSpace s)";
        cases "rmatch protocolNoAuthPattern (TrimSpace s)";
        cases "rmatch userPassHostPattern rem")
       (simp_all add: split_step_def)
qed

lemma roundtrip_split:
  assumes ss: "split_step s = Some parts" and p: "ParseProxy s = Some d"
    and v: "valid_descriptor d"
    and c: "(user d = '''' \<and> password d = '''' \<and> trailing_space (port d) = 0)
       \<or> (user d \<noteq> '''' \<and> password d \<noteq> '''' \<and> all_digits (port d)
            \<and> CHR ''@'' \<notin> set (butlast (host d))
            \<and> CHR 0x0A \<notin> set (host d @ user d @ password d))"
  shows "ParseProxy (format_descriptor d) = Some d"
proof -
  from split_stepD[OF ss] obtain pr0 rem where 1: "pr0 = '''' \<or> pr0 \<in> set protocols"
      "parts = Split rem CHR '':''" "ParseProxy s = switch_parts pr0 parts"
    by blast
  from 1(2) have nc: "\<forall>q \<in> set parts. CHR '':'' \<notin> set q"
    by (simp add: Split_parts_no_sep)
  from 1(3) p have sw: "switch_parts pr0 parts = Some d" by simp
  from switch_parts_fields[OF sw v nc 1(1)]
  have f: "CHR '':'' \<notin> set (host d)" "CHR '':'' \<notin> set (password d)"
      "protocol d \<in> set protocols" "CHR '':'' \<notin> set (port d)" by blast+
  from v have ne: "host d \<noteq> []" "port d \<noteq> []" by (simp_all add: valid_descriptor_def)
  obtain h po u w pr
    where d: "d = \<lparr>host = h, port = po, user = u, password = w, protocol = pr\<rparr>"
    by (cases d) simp
  from c show ?thesis
  proof
    assume a: "user d = '''' \<and> password d = '''' \<and> trailing_space (port d) = 0"
    with d ne have "format_descriptor d = pr @ ''://'' @ h @ '':'' @ po" "u = ''''" "w = ''''"
      by (simp_all add: format_descriptor_def)
    moreover have "ParseProxy (pr @ ''://'' @ h @ '':'' @ po)
        = Some \<lparr>host = h, port = po, user = '''', password = '''', protocol = pr\<rparr>"
      using f ne a d by (intro reparse_noauth) simp_all
    ultimately show ?thesis using d by simp
  next
    assume a: "user d \<noteq> '''' \<and> password d \<noteq> '''' \<and> all_digits (port d)
        \<and> CHR ''@'' \<notin> set (butlast (host d))
        \<and> CHR 0x0A \<notin> set (host d @ user d @ password d)"
    with d ne have "format_descriptor d = pr @ ''://'' @ u @ '':'' @ w @ ''@'' @ h @ '':'' @ po"
      by (simp add: format_descriptor_def)
    moreover have "ParseProxy (pr @ ''://'' @ u @ '':'' @ w @ ''@'' @ h @ '':'' @ po)
        = Some \<lparr>host = h, port = po, user = u, password = w, protocol = pr\<rparr>"
      using f ne d a by (intro reparse_auth) simp_all
    ultimately show ?thesis using d by simp
  qed
qed

section \<open>Inputs without a lower-case protocol keyword\<close>

lemma first_sep_unique:
  fixes a b :: string
  assumes "a @ c # b = a' @ c # b'" and "c \<notin> set a" and "c \<notin> set a'"
  shows "a = a' \<and> b = b'"
proof -
  have "Split (a @ c # b) c = a # Split b c" using assms(2) by (rule Split_append_sep)
  moreover have "Split (a' @ c # b') c = a' # Split b' c" using assms(3) by (rule Split_append_sep)
  ultimately have "a = a'" using assms(1) by simp
  with assms(1) show ?thesis by simp
qed

lemma protocol_starts:
  assumes "pr \<in> set protocols"
  shows "prefix ''http'' (pr @ x) \<or> prefix ''socks5'' (pr @ x)"
proof -
  from assms consider "pr = ''http''" | "pr = ''https''" | "pr = ''socks5''"
    by (auto simp: protocols_def)
  then show ?thesis by cases simp_all
qed

lemma keyword_patterns_start:
  assumes "rmatch protocolWithAuthPattern t = Some m \<or> rmatch protocolNoAuthPattern t = Some m
      \<or> rmatch protocolPrefix t = Some m"
  shows "\<exists>pr x. pr \<in> set protocols \<and> t = pr @ CHR '':'' # x"
proof -
  obtain cs r where m: "m = (cs, r)" by (cases m)
  from assms consider (a) "rmatch protocolWithAuthPattern t = Some (cs, r)"
    | (b) "rmatch protocolNoAuthPattern t = Some (cs, r)"
    | (c) "rmatch protocolPrefix t = Some (cs, r)"
    unfolding m by blast
  then show ?thesis
  proof cases
    case a
    then obtain pr rest where "pr \<in> set protocols" "t = pr @ ''://'' @ rest"
      by (blast dest: protocolWithAuth_sound)
    then have "pr \<in> set protocols \<and> t = pr @ CHR '':'' # (''//'' @ rest)" by simp
    then show ?thesis by blast
  next
    case b
    then obtain pr h po where "pr \<in> set protocols" "t = pr @ ''://'' @ h @ '':'' @ po"
      by (blast dest: protocolNoAuth_sound)
    then have "pr \<in> set protocols \<and> t = pr @ CHR '':'' # (''//'' @ h @ '':'' @ po)" by simp
    then show ?thesis by blast
  next
    case c
    then obtain pr s' where "pr \<in> set protocols" "t = pr @ '':'' @ s'"
      by (blast dest: protocolPrefix_sound)
    then have "pr \<in> set protocols \<and> t = pr @ CHR '':'' # s'" by simp
    then show ?thesis by blast
  qed
qed

lemma keyword_patterns_need_lower_case:
  assumes "\<not> prefix ''http'' t" and "\<not> prefix ''socks5'' t"
  shows "rmatch protocolWithAuthPattern t = None" "rmatch protocolNoAuthPattern t = None"
    "rmatch protocolPrefix t = None"
proof -
  have no: "\<And>m. \<not> (rmatch protocolWithAuthPattern t = Some m
      \<or> rmatch protocolNoAuthPattern t = Some m \<or> rmatch protocolPrefix t = Some m)"
  proof
    fix m
    assume "rmatch protocolWithAuthPattern t = Some m
      \<or> rmatch protocolNoAuthPattern t = Some m \<or> rmatch protocolPrefix t = Some m"
    then obtain pr x where "pr \<in> set protocols" "t = pr @ CHR '':'' # x"
      using keyword_patterns_start[of t m] by blast
    with protocol_starts[of pr "CHR '':'' # x"] assms show False by simp
  qed
  show "rmatch protocolWithAuthPattern t = None"
    using no by (cases "rmatch protocolWithAuthPattern t") auto
  show "rmatch protocolNoAuthPattern t = None"
    using no by (cases "rmatch protocolNoAuthPattern t") auto
  show "rmatch protocolPrefix t = None"
    using no by (cases "rmatch protocolPrefix t") auto
qed

lemma keyword_patterns_other_field:
  assumes "CHR '':'' \<notin> set K" and "K \<notin> set protocols"
  shows "rmatch protocolWithAuthPattern (K @ CHR '':'' # x) = None"
    "rmatch protocolNoAuthPattern (K @ CHR '':'' # x) = None"
    "rmatch protocolPrefix (K @ CHR '':'' # x) = None"
proof -
  let ?t = "K @ CHR '':'' # x"
  have no: "\<And>m. \<not> (rmatch protocolWithAuthPattern ?t = Some m
      \<or> rmatch protocolNoAuthPattern ?t = Some m \<or> rmatch protocolPrefix ?t = Some m)"
  proof
    fix m
    assume "rmatch protocolWithAuthPattern ?t = Some m
      \<or> rmatch protocolNoAuthPattern ?t = Some m \<or> rmatch protocolPrefix ?t = Some m"
    then obtain pr y where pr: "pr \<in> set protocols" "?t = pr @ CHR '':'' # y"
      using keyword_patterns_start[of ?t m] by blast
    from pr(2) assms(1) protocols_no_colon[OF pr(1)] have "K = pr"
      by (blast dest: first_sep_unique)
    with pr(1) assms(2) show False by simp
  qed
  show "rmatch protocolWithAuthPattern ?t = None"
    using no by (cases "rmatch protocolWithAuthPattern ?t") auto
  show "rmatch protocolNoAuthPattern ?t = None"
    using no by (cases "rmatch protocolNoAuthPattern ?t") auto
  show "rmatch protocolPrefix ?t = None"
    using no by (cases "rmatch protocolPrefix ?t") auto
qed

lemma Split_hd_prefix: "Split s c = p # ps \<Longrightarrow> prefix p s"
proof (induction s arbitrary: p ps)
  case Nil
  then show ?case by simp
next
  case (Cons x xs)
  show ?case
  proof (cases "x = c")
    case True
    with Cons.prems show ?thesis by simp
  next
    case False
    obtain q qs where q: "Split xs c = q # qs"
      using Split_nonempty[of xs c] by (cases "Split xs c") auto
    with Cons.prems False have "p = x # q" by simp
    moreover from Cons.IH[OF q] have "prefix q xs" .
    ultimately show ?thesis by simp
  qed
qed

lemma space_encodings_first_not_colon:
  "e \<in> set space_encodings \<Longrightarrow> prefix e (K @ CHR '':'' # x) \<Longrightarrow> prefix e K"
proof -
  assume e: "e \<in> set space_encodings" and p: "prefix e (K @ CHR '':'' # x)"
  from p have "prefix e K \<or> (\<exists>y. e = K @ y \<and> prefix y (CHR '':'' # x))"
    by (simp add: prefix_append)
  moreover have "\<not> (\<exists>y. e = K @ y \<and> prefix y (CHR '':'' # x) \<and> y \<noteq> [])"
  proof
    assume "\<exists>y. e = K @ y \<and> prefix y (CHR '':'' # x) \<and> y \<noteq> []"
    then obtain y where y: "e = K @ y" "prefix y (CHR '':'' # x)" "y \<noteq> []" by blast
    from y(2,3) have "CHR '':'' \<in> set y" by (cases y) (auto simp: prefix_Cons)
    with y(1) space_encodings_no_colon[OF e] show False by simp
  qed
  ultimately show "prefix e K" by auto
qed

lemma leading_space_before_colon:
  assumes "leading_space K = 0"
  shows "leading_space (K @ CHR '':'' # x) = 0"
  using assms unfolding leading_space_0_iff
  by (blast dest: space_encodings_first_not_colon)

lemma other_first_field:
  assumes K: "CHR '':'' \<notin> set K" "K \<notin> set protocols" "leading_space K = 0"
    and h: "CHR '':'' \<notin> set h" "CHR ''@'' \<notin> set h"
    and p: "CHR '':'' \<notin> set p" "trailing_space p = 0"
  shows "ParseProxy (K @ ''://'' @ h @ '':'' @ p)
     = Some \<lparr>host = K, port = ''//'' @ h, user = p, password = '''', protocol = ''http''\<rparr>"
proof -
  let ?t = "K @ ''://'' @ h @ '':'' @ p"
  have t1: "?t = K @ CHR '':'' # (''//'' @ h @ '':'' @ p)" by simp
  have t2: "?t = (K @ ''://'' @ h) @ CHR '':'' # p" by simp
  have "leading_space ?t = 0" unfolding t1 using K(3) by (rule leading_space_before_colon)
  moreover have "trailing_space ?t = 0" unfolding t2 using p(2) by (rule trailing_space_after_colon)
  ultimately have t: "TrimSpace ?t = ?t" by (rule TrimSpace_fix)
  note n = keyword_patterns_other_field[OF K(1,2), of "''//'' @ h @ '':'' @ p", folded t1]
  from n(3) have st: "strip_protocol ?t = Some ('''', ?t)"
    by (simp add: strip_protocol_def FindStringSubmatch_def)
  have sp: "Split ?t CHR '':'' = [K, ''//'' @ h, p]"
  proof -
    have a: "Split (K @ CHR '':'' # (''//'' @ h @ '':'' @ p)) CHR '':''
        = K # Split (''//'' @ h @ '':'' @ p) CHR '':''"
      using K(1) by (rule Split_append_sep)
    have "CHR '':'' \<notin> set (''//'' @ h)" using h(1) by simp
    then have b: "Split ((''//'' @ h) @ CHR '':'' # p) CHR '':''
        = (''//'' @ h) # Split p CHR '':''"
      by (rule Split_append_sep)
    have c: "Split p CHR '':'' = [p]" using p(1) by (rule Split_no_sep)
    from a b c show ?thesis by simp
  qed
  have cnt: "count_list ?t CHR '':'' = 2" using K(1) h(1) p(1) by simp
  have n4: "rmatch userPassHostPattern ?t = None"
  proof (cases "rmatch userPassHostPattern ?t")
    case (Some m)
    obtain cs r where m: "m = (cs, r)" by (cases m)
    from Some[unfolded m] obtain u w h' po
      where d: "?t = u @ '':'' @ w @ ''@'' @ h' @ '':'' @ po"
      by (blast dest: userPassHost_sound)
    have "count_list (u @ '':'' @ w @ ''@'' @ h' @ '':'' @ po) CHR '':'' = 2"
      using cnt d by (simp only:)
    then have c: "CHR '':'' \<notin> set u" "CHR '':'' \<notin> set w" "CHR '':'' \<notin> set h'"
        "CHR '':'' \<notin> set po"
      by (simp_all add: count_list_0_iff)
    have a: "Split (u @ CHR '':'' # ((w @ ''@'' @ h') @ CHR '':'' # po)) CHR '':''
        = u # Split ((w @ ''@'' @ h') @ CHR '':'' # po) CHR '':''"
      using c(1) by (rule Split_append_sep)
    have "CHR '':'' \<notin> set (w @ ''@'' @ h')" using c(2,3) by simp
    then have b: "Split ((w @ ''@'' @ h') @ CHR '':'' # po) CHR '':''
        = (w @ ''@'' @ h') # Split po CHR '':''"
      by (rule Split_append_sep)
    have e: "Split po CHR '':'' = [po]" using c(4) by (rule Split_no_sep)
    from a b e have "Split (u @ '':'' @ w @ ''@'' @ h' @ '':'' @ po) CHR '':''
        = [u, w @ ''@'' @ h', po]" by simp
    with sp d have "''//'' @ h = w @ ''@'' @ h'" by simp
    then have "CHR ''@'' \<in> set (''//'' @ h)" by simp
    with h(2) show ?thesis by simp
  qed simp
  have "ParseProxy ?t = switch_parts '''' (Split ?t CHR '':'')"
    using n(1,2) st n4 t by (intro ParseProxy_split) (simp_all only:)
  moreover have "K \<noteq> ''http''" "K \<noteq> ''https''" "K \<noteq> ''socks5''"
    using K(2) by (auto simp: protocols_def)
  ultimately show ?thesis using sp by (simp add: switch_parts_def default_protocol_def)
qed

lemma switch_parts_default_only:
  assumes "switch_parts '''' parts = Some d" and "\<And>p ps. parts = p # ps \<Longrightarrow> p \<notin> set protocols"
  shows "protocol d = '''' \<or> protocol d = ''http''"
proof -
  consider "length parts = 4" | "length parts = 3" | "length parts = 2"
    | "length parts \<noteq> 4" "length parts \<noteq> 3" "length parts \<noteq> 2" by blast
  then show ?thesis
  proof cases
    case 1
    then obtain a b c e where "parts = [a, b, c, e]" by (blast dest: length_4E)
    with assms(1) show ?thesis by (auto simp: switch_parts_def default_protocol_def)
  next
    case 2
    then obtain a b c where p: "parts = [a, b, c]" by (blast dest: length_3E)
    with assms(2) have "a \<notin> set protocols" by simp
    with p assms(1) show ?thesis
      by (auto simp: switch_parts_def default_protocol_def protocols_def)
  next
    case 3
    then obtain a b where "parts = [a, b]" by (blast dest: length_2E)
    with assms(1) show ?thesis by (auto simp: switch_parts_def default_protocol_def)
  next
    case 4
    with assms(1) show ?thesis by (auto simp: switch_parts_def empty_descriptor_def)
  qed
qed

lemma no_lower_case_keyword:
  assumes "\<not> prefix ''http'' (TrimSpace s)" and "\<not> prefix ''socks5'' (TrimSpace s)"
  shows "strip_protocol (TrimSpace s) = Some ('''', TrimSpace s)"
    and "rmatch userPassHostPattern (TrimSpace s) = None \<Longrightarrow>
      ParseProxy s = switch_parts '''' (Split (TrimSpace s) CHR '':'')"
    and "\<exists>d. ParseProxy s = Some d \<and> (protocol d = '''' \<or> protocol d = ''http'')"
proof -
  let ?t = "TrimSpace s"
  note n = keyword_patterns_need_lower_case[OF assms]
  from n(3) show st: "strip_protocol ?t = Some ('''', ?t)"
    by (simp add: strip_protocol_def FindStringSubmatch_def)
  show sp: "rmatch userPassHostPattern ?t = None \<Longrightarrow>
      ParseProxy s = switch_parts '''' (Split ?t CHR '':'')"
    using n(1,2) st by (rule ParseProxy_split)
  show "\<exists>d. ParseProxy s = Some d \<and> (protocol d = '''' \<or> protocol d = ''http'')"
  proof (cases "rmatch userPassHostPattern ?t")
    case (Some m)
    with n(1,2) st obtain u w h po
      where "ParseProxy s = Some \<lparr>host = h, port = po, user = u, password = w, protocol = ''''\<rparr>"
      by (cases m) (blast dest: ParseProxy_userPassHost)
    then show ?thesis by simp
  next
    case None
    obtain d where d: "switch_parts '''' (Split ?t CHR '':'') = Some d"
      using switch_parts_total by blast
    have "\<And>p ps. Split ?t CHR '':'' = p # ps \<Longrightarrow> p \<notin> set protocols"
    proof
      fix p ps assume a: "Split ?t CHR '':'' = p # ps" "p \<in> set protocols"
      from a(1) have "prefix p ?t" by (rule Split_hd_prefix)
      then obtain x where "?t = p @ x" by (auto simp: prefix_def)
      with protocol_starts[OF a(2), of x] assms show False by simp
    qed
    with d have "protocol d = '''' \<or> protocol d = ''http''" by (rule switch_parts_default_only)
    with sp[OF None] d show ?thesis by simp
  qed
qed

section \<open>The claims\<close>

text \<open>
  C1: for an input of the shape \<open>user:password@host:port\<close> without protocol prefix,
  \<open>ParseProxy\<close> should return the default protocol \<open>http\<close>.  The function returns from
  the branch of the fourth pattern before the default is applied: at
  \<open>user:pw@host:8080\<close> the protocol of the result is empty, and the formatted proxy
  starts with \<open>://\<close>.
\<close>

theorem C1_no_default_after_userpass:
  "ParseProxy ''user:pw@host:8080'' =
     Some \<lparr>host = ''host'', port = ''8080'', user = ''user'', password = ''pw'', protocol = ''''\<rparr>
   \<and> ConvertProxyFormat ''user:pw@host:8080'' = Some ''://user:pw@host:8080''"
  by code_simp

text \<open>
  C2, as stated: when the output file cannot be created or written,
  \<open>ValidateAndSaveProxies\<close> reports an error and still returns the survivors.  In a world
  where no file can be created, the proxy \<open>1.1.1.1:8080\<close> survives the validation, the
  save fails, and the list returned with the error is empty.
\<close>

theorem C2_survivors_dropped_counterexample:
  "validate_loop (sample_env\<lparr>os_Create := (\<lambda>w name. (False, w))\<rparr>) [''1.1.1.1:8080''] [] 0
     = Some ([''1.1.1.1:8080''], 1)
   \<and> ValidateAndSaveProxies (sample_env\<lparr>os_Create := (\<lambda>w name. (False, w))\<rparr>) 0
        [''1.1.1.1:8080''] ValidProxiesFileName
     = Some (([], Some (SaveFailed (CreateFailed ValidProxiesFileName))), 1)"
  by code_simp

text \<open>
  C2, amended: when the save of the survivors fails, \<open>ProxyService.ValidateAndSaveProxies\<close>
  reports the error to the caller and returns the empty list in place of the survivors.
  \<open>ProxyValidator.ValidateAndSaveProxies\<close> of package \<open>proxyvalidate\<close> returns the
  survivors whether or not the file could be created or written; it has no error result.
\<close>

theorem C2_error_or_survivors:
  "(validate_loop env proxyList [] w = Some (validProxies, w1)
      \<and> saveProxiesToFile env w1 validProxies filename = (Some err, w2) \<longrightarrow>
    ValidateAndSaveProxies env w proxyList filename = Some (([], Some (SaveFailed err)), w2))
   \<and> (pv_validate_loop env proxyList [] w = Some (survivors, w3) \<longrightarrow>
    (\<exists>w4. ProxyValidator_ValidateAndSaveProxies env w proxyList filename = Some (survivors, w4)))"
  by (auto simp: ValidateAndSaveProxies_def ProxyValidator_ValidateAndSaveProxies_def
      split: prod.splits bool.splits)

theorem C2_error_or_survivors_witness:
  "validate_loop (sample_env\<lparr>os_Create := (\<lambda>w name. (False, w))\<rparr>) [''1.1.1.1:8080''] [] 0
     = Some ([''1.1.1.1:8080''], 1)
   \<and> saveProxiesToFile (sample_env\<lparr>os_Create := (\<lambda>w name. (False, w))\<rparr>) 1
        [''1.1.1.1:8080''] ''out.txt'' = (Some (CreateFailed ''out.txt''), 1)
   \<and> ValidateAndSaveProxies (sample_env\<lparr>os_Create := (\<lambda>w name. (False, w))\<rparr>) 0
        [''1.1.1.1:8080''] ''out.txt'' = Some (([], Some (SaveFailed (CreateFailed ''out.txt''))), 1)
   \<and> pv_validate_loop (sample_env\<lparr>os_Create := (\<lambda>w name. (False, w))\<rparr>) [''1.1.1.1:8080''] [] 0
     = Some ([''1.1.1.1:8080''], 1)
   \<and> fst (the (ProxyValidator_ValidateAndSaveProxies
        (sample_env\<lparr>os_Create := (\<lambda>w name. (False, w))\<rparr>) 0 [''1.1.1.1:8080''] ''out.txt''))
     = [''1.1.1.1:8080'']"
proof -
  let ?e = "sample_env\<lparr>os_Create := (\<lambda>w name. (False, w))\<rparr>"
  have 1: "validate_loop ?e [''1.1.1.1:8080''] [] 0 = Some ([''1.1.1.1:8080''], 1)"
    by code_simp
  have 2: "saveProxiesToFile ?e 1 [''1.1.1.1:8080''] ''out.txt''
      = (Some (CreateFailed ''out.txt''), 1)"
    by (simp add: saveProxiesToFile_def sample_env_def)
  have 3: "pv_validate_loop ?e [''1.1.1.1:8080''] [] 0 = Some ([''1.1.1.1:8080''], 1)"
    by code_simp
  note t = C2_error_or_survivors[of ?e "[''1.1.1.1:8080'']" 0 "[''1.1.1.1:8080'']" 1 "''out.txt''"
      "CreateFailed ''out.txt''" 1 "[''1.1.1.1:8080'']" 1]
  from t 1 2 have 4: "ValidateAndSaveProxies ?e 0 [''1.1.1.1:8080''] ''out.txt''
      = Some (([], Some (SaveFailed (CreateFailed ''out.txt''))), 1)" by blast
  from t 3 obtain w4 where "ProxyValidator_ValidateAndSaveProxies ?e 0 [''1.1.1.1:8080''] ''out.txt''
      = Some ([''1.1.1.1:8080''], w4)" by blast
  then have 5: "fst (the (ProxyValidator_ValidateAndSaveProxies ?e 0 [''1.1.1.1:8080''] ''out.txt''))
      = [''1.1.1.1:8080'']" by simp
  from 1 2 3 4 5 show ?thesis by blast
qed

text \<open>
  C3, as stated: for every input with a valid descriptor, formatting and parsing again
  gives the same descriptor.  \<open>1.1.1.1:8080:bob\<close> is parsed with user \<open>bob\<close> and no
  password; the formatter writes no user without password, and the formatted string
  \<open>http://1.1.1.1:8080\<close> is parsed with an empty user.
\<close>

theorem C3_roundtrip_counterexample:
  "ParseProxy ''1.1.1.1:8080:bob'' =
     Some \<lparr>host = ''1.1.1.1'', port = ''8080'', user = ''bob'', password = '''',
           protocol = ''http''\<rparr>
   \<and> valid_descriptor \<lparr>host = ''1.1.1.1'', port = ''8080'', user = ''bob'', password = '''',
           protocol = ''http''\<rparr>
   \<and> ConvertProxyFormat ''1.1.1.1:8080:bob'' = Some ''http://1.1.1.1:8080''
   \<and> ParseProxy ''http://1.1.1.1:8080'' =
     Some \<lparr>host = ''1.1.1.1'', port = ''8080'', user = '''', password = '''',
           protocol = ''http''\<rparr>
   \<and> ParseProxy ''http://1.1.1.1:8080'' \<noteq> ParseProxy ''1.1.1.1:8080:bob''"
  by code_simp

text \<open>
  C3, amended: let \<open>ParseProxy\<close> map the input to a valid descriptor with a non-empty
  protocol.  Formatting and parsing again gives the same descriptor when the input was
  matched by one of the patterns (the colon split was not reached).  For a descriptor of
  the colon split it does so when user and password are both empty and the port does not
  end in white space, and when user and password are both non-empty, the port consists of
  digits, the host has no \<open>@\<close> before its last character, and host, user and password
  have no line feed.
\<close>

theorem C3_roundtrip:
  assumes "ParseProxy s = Some d" and "valid_descriptor d" and "protocol d \<noteq> ''''"
    and "split_step s = None
       \<or> (user d = '''' \<and> password d = '''' \<and> trailing_space (port d) = 0)
       \<or> (user d \<noteq> '''' \<and> password d \<noteq> '''' \<and> all_digits (port d)
            \<and> CHR ''@'' \<notin> set (butlast (host d))
            \<and> CHR 0x0A \<notin> set (host d @ user d @ password d))"
  shows "ConvertProxyFormat s = Some (format_descriptor d)
     \<and> ParseProxy (format_descriptor d) = Some d"
proof
  show "ConvertProxyFormat s = Some (format_descriptor d)"
    using assms(1) by (simp add: ConvertProxyFormat_def)
  show "ParseProxy (format_descriptor d) = Some d"
  proof (cases "split_step s")
    case None
    from split_step_NoneD[OF None]
    consider (a) m where "rmatch protocolWithAuthPattern (TrimSpace s) = Some m"
      | (b) m where "rmatch protocolWithAuthPattern (TrimSpace s) = None"
          "rmatch protocolNoAuthPattern (TrimSpace s) = Some m"
      | (c) pr rem m where "rmatch protocolWithAuthPattern (TrimSpace s) = None"
          "rmatch protocolNoAuthPattern (TrimSpace s) = None"
          "strip_protocol (TrimSpace s) = Some (pr, rem)"
          "rmatch userPassHostPattern rem = Some m"
      by blast
    then show ?thesis
    proof cases
      case a
      then show ?thesis using assms(1) by (rule roundtrip_withAuth)
    next
      case b
      then show ?thesis using assms(1) by (rule roundtrip_noAuth)
    next
      case c
      then show ?thesis using assms(1,3) by (rule roundtrip_userPassHost)
    qed
  next
    case (Some parts)
    with assms(4) have "(user d = '''' \<and> password d = '''' \<and> trailing_space (port d) = 0)
       \<or> (user d \<noteq> '''' \<and> password d \<noteq> '''' \<and> all_digits (port d)
            \<and> CHR ''@'' \<notin> set (butlast (host d))
            \<and> CHR 0x0A \<notin> set (host d @ user d @ password d))"
      by simp
    with Some assms(1,2) show ?thesis by (rule roundtrip_split)
  qed
qed

theorem C3_roundtrip_witness:
  "ParseProxy ''10.0.0.1:1080:user:pw'' =
     Some \<lparr>host = ''10.0.0.1'', port = ''1080'', user = ''user'', password = ''pw'',
           protocol = ''http''\<rparr>
   \<and> ConvertProxyFormat ''10.0.0.1:1080:user:pw'' = Some ''http://user:pw@10.0.0.1:1080''
   \<and> ParseProxy ''http://user:pw@10.0.0.1:1080'' =
     Some \<lparr>host = ''10.0.0.1'', port = ''1080'', user = ''user'', password = ''pw'',
           protocol = ''http''\<rparr>
   \<and> ParseProxy ''proxy:web'' =
     Some \<lparr>host = ''proxy'', port = ''web'', user = '''', password = '''', protocol = ''http''\<rparr>
   \<and> ConvertProxyFormat ''proxy:web'' = Some ''http://proxy:web''
   \<and> ParseProxy ''http://proxy:web'' =
     Some \<lparr>host = ''proxy'', port = ''web'', user = '''', password = '''', protocol = ''http''\<rparr>"
proof -
  let ?d = "\<lparr>host = ''10.0.0.1'', port = ''1080'', user = ''user'', password = ''pw'',
           protocol = ''http''\<rparr>"
  let ?e = "\<lparr>host = ''proxy'', port = ''web'', user = '''', password = '''',
           protocol = ''http''\<rparr>"
  have 1: "ParseProxy ''10.0.0.1:1080:user:pw'' = Some ?d" by code_simp
  have 2: "valid_descriptor ?d" by (simp add: valid_descriptor_def)
  have 3: "protocol ?d \<noteq> ''''" by simp
  have 4: "split_step ''10.0.0.1:1080:user:pw'' = None
       \<or> (user ?d = '''' \<and> password ?d = '''' \<and> trailing_space (port ?d) = 0)
       \<or> (user ?d \<noteq> '''' \<and> password ?d \<noteq> '''' \<and> all_digits (port ?d)
            \<and> CHR ''@'' \<notin> set (butlast (host ?d))
            \<and> CHR 0x0A \<notin> set (host ?d @ user ?d @ password ?d))"
    by (simp add: all_digits_def)
  have 5: "format_descriptor ?d = ''http://user:pw@10.0.0.1:1080''"
    by (simp add: format_descriptor_def)
  have 6: "ParseProxy ''proxy:web'' = Some ?e" by code_simp
  have 7: "valid_descriptor ?e" by (simp add: valid_descriptor_def)
  have 8: "protocol ?e \<noteq> ''''" by simp
  have "trailing_space ''web'' = 0" by code_simp
  then have 9: "split_step ''proxy:web'' = None
       \<or> (user ?e = '''' \<and> password ?e = '''' \<and> trailing_space (port ?e) = 0)
       \<or> (user ?e \<noteq> '''' \<and> password ?e \<noteq> '''' \<and> all_digits (port ?e)
            \<and> CHR ''@'' \<notin> set (butlast (host ?e))
            \<and> CHR 0x0A \<notin> set (host ?e @ user ?e @ password ?e))"
    by simp
  have 10: "format_descriptor ?e = ''http://proxy:web''"
    by (simp add: format_descriptor_def)
  from C3_roundtrip[OF 1 2 3 4] C3_roundtrip[OF 6 7 8 9] 1 5 6 10 show ?thesis by simp
qed

text \<open>
  C4, as stated: every descriptor returned by \<open>ParseProxy\<close> is valid or empty in all five
  fields.  The input \<open>:8080\<close> is split into an empty host and the port 8080, and the
  default protocol is added: the result is neither valid nor empty.
\<close>

theorem C4_partial_descriptor_counterexample:
  "ParseProxy '':8080'' =
     Some \<lparr>host = '''', port = ''8080'', user = '''', password = '''', protocol = ''http''\<rparr>
   \<and> \<not> valid_descriptor
         \<lparr>host = '''', port = ''8080'', user = '''', password = '''', protocol = ''http''\<rparr>
   \<and> \<lparr>host = '''', port = ''8080'', user = '''', password = '''', protocol = ''http''\<rparr>
       \<noteq> empty_descriptor"
  by code_simp

text \<open>
  C4, amended: the descriptor returned by \<open>ParseProxy\<close> is valid, or empty in all five
  fields, or a result of the colon split with a protocol keyword as protocol; and for
  every descriptor that is not valid \<open>ConvertProxyFormat\<close> returns the empty string.
\<close>

theorem C4_descriptor_shapes:
  "\<exists>d. ParseProxy s = Some d
     \<and> (valid_descriptor d \<or> d = empty_descriptor
          \<or> (split_step s \<noteq> None \<and> protocol d \<in> set protocols))
     \<and> (\<not> valid_descriptor d \<longrightarrow> ConvertProxyFormat s = Some '''')"
proof -
  have conv: "\<And>d. ParseProxy s = Some d \<Longrightarrow> \<not> valid_descriptor d \<Longrightarrow>
      ConvertProxyFormat s = Some ''''"
    by (simp add: ConvertProxyFormat_def format_descriptor_empty_iff)
  have valid: "(\<exists>d. ParseProxy s = Some d \<and> valid_descriptor d) \<Longrightarrow> ?thesis"
    by blast
  show ?thesis
  proof (cases "rmatch protocolWithAuthPattern (TrimSpace s)")
    case (Some m)
    then obtain pr u w h po where "h \<noteq> []" "po \<noteq> []"
        "ParseProxy s = Some \<lparr>host = h, port = po, user = u, password = w, protocol = pr\<rparr>"
      by (cases m) (blast dest: ParseProxy_withAuth)
    then have "\<exists>d. ParseProxy s = Some d \<and> valid_descriptor d"
      by (simp add: valid_descriptor_def)
    then show ?thesis by (rule valid)
  next
    case None
    note n1 = this
    show ?thesis
    proof (cases "rmatch protocolNoAuthPattern (TrimSpace s)")
      case (Some m)
      with n1 obtain pr h po where "h \<noteq> []" "po \<noteq> []"
          "ParseProxy s = Some \<lparr>host = h, port = po, user = '''', password = '''', protocol = pr\<rparr>"
        by (cases m) (blast dest: ParseProxy_noAuth)
      then have "\<exists>d. ParseProxy s = Some d \<and> valid_descriptor d"
        by (simp add: valid_descriptor_def)
      then show ?thesis by (rule valid)
    next
      case None
      note n2 = this
      from strip_protocol_cases[of "TrimSpace s"] obtain pr rem
        where st: "strip_protocol (TrimSpace s) = Some (pr, rem)"
          and pr: "pr = '''' \<or> pr \<in> set protocols" by auto
      show ?thesis
      proof (cases "rmatch userPassHostPattern rem")
        case (Some m)
        with n1 n2 st obtain u w h po where "h \<noteq> []" "po \<noteq> []"
            "ParseProxy s = Some \<lparr>host = h, port = po, user = u, password = w, protocol = pr\<rparr>"
          by (cases m) (blast dest: ParseProxy_userPassHost)
        then have "\<exists>d. ParseProxy s = Some d \<and> valid_descriptor d"
        by (simp add: valid_descriptor_def)
      then show ?thesis by (rule valid)
      next
        case None
        with n1 n2 st have pp: "ParseProxy s = switch_parts pr (Split rem CHR '':'')"
          by (rule ParseProxy_split)
        from n1 n2 st None have ss: "split_step s = Some (Split rem CHR '':'')"
          by (rule split_stepI)
        obtain d where d: "switch_parts pr (Split rem CHR '':'') = Some d"
          using switch_parts_total by blast
        from d pr have "d = empty_descriptor \<or> protocol d \<in> set protocols"
          by (rule switch_parts_protocol)
        with pp d ss conv[of d] show ?thesis by auto
      qed
    qed
  qed
qed

theorem C4_descriptor_shapes_witness:
  "ParseProxy '':8080'' =
     Some \<lparr>host = '''', port = ''8080'', user = '''', password = '''', protocol = ''http''\<rparr>
   \<and> split_step '':8080'' = Some ['''', ''8080'']
   \<and> ConvertProxyFormat '':8080'' = Some ''''"
proof -
  let ?d = "\<lparr>host = '''', port = ''8080'', user = '''', password = '''', protocol = ''http''\<rparr>"
  have p: "ParseProxy '':8080'' = Some ?d" by code_simp
  have s: "split_step '':8080'' = Some ['''', ''8080'']" by code_simp
  have nv: "\<not> valid_descriptor ?d" by (simp add: valid_descriptor_def)
  from C4_descriptor_shapes[of "'':8080''"] p nv
  have "ConvertProxyFormat '':8080'' = Some ''''" by auto
  with p s show ?thesis by simp
qed

text \<open>
  C5: \<open>FilterProxies\<close> returns the proxies for which the run found a non-empty outbound
  IP and measured the risk score 0, in input order.  \<open>measure_all\<close> gives what the run
  measures for each proxy; a proxy without IP, with a negative score (a failed lookup) or
  with a positive score is not \<open>clean\<close> and is left out.
\<close>

theorem C5_filter_exact:
  "\<exists>ms w'. measure_all env apiKey strictnessLevel w proxyList = Some (ms, w')
     \<and> length ms = length proxyList
     \<and> FilterProxies env w proxyList apiKey strictnessLevel =
         Some (map fst (filter clean (zip proxyList ms)), w')
     \<and> subseq (map fst (filter clean (zip proxyList ms))) proxyList"
proof -
  obtain ms w' where m: "measure_all env apiKey strictnessLevel w proxyList = Some (ms, w')"
      "length ms = length proxyList"
    using measure_all_total[of env apiKey strictnessLevel w proxyList] by blast
  from FilterProxies_loop_measure[OF m(1), of "[]"]
  have "FilterProxies env w proxyList apiKey strictnessLevel =
      Some (map fst (filter clean (zip proxyList ms)), w')"
    by (simp add: FilterProxies_def)
  moreover from m(2) have "subseq (map fst (filter clean (zip proxyList ms))) proxyList"
    by (rule subseq_filter_zip)
  ultimately show ?thesis using m by blast
qed

text \<open>
  C6, as stated: an input whose colon split has more than four fields yields the
  descriptor that is empty in all five fields.  The input \<open>http://1.2.3.4:8080:user:pass\<close>
  has five fields between its colons; the protocol prefix is removed first, the rest has
  four fields, and the result is a valid descriptor.
\<close>

theorem C6_five_fields_counterexample:
  "length (Split ''http://1.2.3.4:8080:user:pass'' CHR '':'') = 5
   \<and> ParseProxy ''http://1.2.3.4:8080:user:pass'' =
     Some \<lparr>host = ''1.2.3.4'', port = ''8080'', user = ''user'', password = ''pass'',
           protocol = ''http''\<rparr>
   \<and> valid_descriptor \<lparr>host = ''1.2.3.4'', port = ''8080'', user = ''user'',
           password = ''pass'', protocol = ''http''\<rparr>
   \<and> \<lparr>host = ''1.2.3.4'', port = ''8080'', user = ''user'', password = ''pass'',
           protocol = ''http''\<rparr> \<noteq> empty_descriptor"
  by code_simp

text \<open>
  C6, amended: \<open>ParseProxy\<close> returns a descriptor for every input string, it never
  panics.  The empty string gives the descriptor that is empty in all five fields; so does
  every string without a colon, which is a single field of the colon split; and so does
  every input for which no pattern matches, so that the colon split is reached, and the
  split of what is left after the protocol prefix gives more than four fields.
\<close>

theorem C6_total_and_malformed:
  "(\<exists>d. ParseProxy s = Some d)
   \<and> ParseProxy '''' = Some empty_descriptor
   \<and> (CHR '':'' \<notin> set s1 \<longrightarrow>
        split_step s1 = Some [TrimSpace s1] \<and> ParseProxy s1 = Some empty_descriptor)
   \<and> (split_step s2 = Some parts \<and> 4 < length parts \<longrightarrow>
        ParseProxy s2 = Some empty_descriptor)"
proof (intro conjI impI)
  show "\<exists>d. ParseProxy s = Some d" by (rule ParseProxy_total)
  show "ParseProxy '''' = Some empty_descriptor"
    by (rule no_colon_split_step) simp
next
  assume "CHR '':'' \<notin> set s1"
  then show "split_step s1 = Some [TrimSpace s1]" "ParseProxy s1 = Some empty_descriptor"
    by (rule no_colon_split_step)+
next
  assume a: "split_step s2 = Some parts \<and> 4 < length parts"
  then obtain pr where "ParseProxy s2 = switch_parts pr parts"
    by (blast dest: split_stepD)
  with a show "ParseProxy s2 = Some empty_descriptor"
    by (simp add: switch_parts_other)
qed

theorem C6_total_and_malformed_witness:
  "CHR '':'' \<notin> set ''proxy.example.org''
   \<and> ParseProxy ''proxy.example.org'' = Some empty_descriptor
   \<and> split_step ''a:b:c:d:e'' = Some [''a'', ''b'', ''c'', ''d'', ''e'']
   \<and> ParseProxy ''a:b:c:d:e'' = Some empty_descriptor"
proof -
  have 1: "CHR '':'' \<notin> set ''proxy.example.org''" by simp
  have 2: "split_step ''a:b:c:d:e'' = Some [''a'', ''b'', ''c'', ''d'', ''e'']" by code_simp
  from C6_total_and_malformed[of _ "''proxy.example.org''" "''a:b:c:d:e''"
      "[''a'', ''b'', ''c'', ''d'', ''e'']"] 1 2
  show ?thesis by simp
qed

text \<open>
  C7, as stated: \<open>CheckIPRiskScore\<close> returns -1 if and only if the lookup fails.  A
  response with status 200, \<open>success\<close> true and \<open>fraud_score\<close> -1 is no failure, and
  the result is -1.
\<close>

theorem C7_minus_one_without_failure_counterexample:
  "fst (CheckIPRiskScore
          (sample_env\<lparr>Unmarshal_ipqs :=
             (\<lambda>text. Some \<lparr>Success = Some True, Message = None, FraudScore = Some (- 1)\<rparr>)\<rparr>)
          0 ''203.0.113.7'' ''secret'' ''0'') = - 1
   \<and> \<not> lookup_failed
          (sample_env\<lparr>Unmarshal_ipqs :=
             (\<lambda>text. Some \<lparr>Success = Some True, Message = None, FraudScore = Some (- 1)\<rparr>)\<rparr>)
          0 ''203.0.113.7'' ''secret'' ''0''"
  by (simp add: CheckIPRiskScore_def lookup_failed_def sample_env_def StatusOK_def
      zero_bool_def zero_int_def)

text \<open>
  C7, amended: \<open>CheckIPRiskScore\<close> returns -1 if the request fails, the status is not
  200, the body is not parseable or \<open>success\<close> is false; in every other case it returns
  the \<open>fraud_score\<close> field of the response, whatever its value.  So the result is -1
  exactly when the lookup fails or the field itself is -1.
\<close>

theorem C7_score_or_minus_one:
  "(lookup_failed env w ip apiKey strictnessLevel \<longrightarrow>
      fst (CheckIPRiskScore env w ip apiKey strictnessLevel) = - 1)
   \<and> (\<not> lookup_failed env w ip apiKey strictnessLevel \<longrightarrow>
      fraud_score_field env w ip apiKey strictnessLevel
        = Some (fst (CheckIPRiskScore env w ip apiKey strictnessLevel)))
   \<and> (fst (CheckIPRiskScore env w ip apiKey strictnessLevel) = - 1 \<longleftrightarrow>
        lookup_failed env w ip apiKey strictnessLevel
        \<or> fraud_score_field env w ip apiKey strictnessLevel = Some (- 1))"
proof -
  note c = CheckIPRiskScore_cases[of env w ip apiKey strictnessLevel]
  show ?thesis
  proof (cases "lookup_failed env w ip apiKey strictnessLevel")
    case True
    with c show ?thesis by simp
  next
    case False
    then obtain n where "fraud_score_field env w ip apiKey strictnessLevel = Some n"
      using fraud_score_field_defined[of env w ip apiKey strictnessLevel] by blast
    with False c show ?thesis by auto
  qed
qed

theorem C7_score_or_minus_one_witness:
  "lookup_failed (sample_env\<lparr>NewRequest_ok := (\<lambda>u. False)\<rparr>) 0 ''203.0.113.7'' ''secret'' ''0''
   \<and> fst (CheckIPRiskScore (sample_env\<lparr>NewRequest_ok := (\<lambda>u. False)\<rparr>) 0
           ''203.0.113.7'' ''secret'' ''0'') = - 1
   \<and> \<not> lookup_failed sample_env 0 ''203.0.113.7'' ''secret'' ''0''
   \<and> fraud_score_field sample_env 0 ''203.0.113.7'' ''secret'' ''0'' = Some 0
   \<and> fst (CheckIPRiskScore sample_env 0 ''203.0.113.7'' ''secret'' ''0'') = 0"
proof -
  have 1: "lookup_failed (sample_env\<lparr>NewRequest_ok := (\<lambda>u. False)\<rparr>) 0
      ''203.0.113.7'' ''secret'' ''0''"
    by (simp add: lookup_failed_def sample_env_def)
  have 2: "\<not> lookup_failed sample_env 0 ''203.0.113.7'' ''secret'' ''0''"
    by (simp add: lookup_failed_def sample_env_def StatusOK_def zero_bool_def)
  have 3: "fraud_score_field sample_env 0 ''203.0.113.7'' ''secret'' ''0'' = Some 0"
    by (simp add: fraud_score_field_def sample_env_def zero_int_def)
  from C7_score_or_minus_one[of "sample_env\<lparr>NewRequest_ok := (\<lambda>u. False)\<rparr>" 0
      "''203.0.113.7''" "''secret''" "''0''"] 1
  have 4: "fst (CheckIPRiskScore (sample_env\<lparr>NewRequest_ok := (\<lambda>u. False)\<rparr>) 0
           ''203.0.113.7'' ''secret'' ''0'') = - 1" by blast
  from C7_score_or_minus_one[of sample_env 0 "''203.0.113.7''" "''secret''" "''0''"] 2 3
  have 5: "fst (CheckIPRiskScore sample_env 0 ''203.0.113.7'' ''secret'' ''0'') = 0" by simp
  from 1 2 3 4 5 show ?thesis by blast
qed

text \<open>
  C8: when no proxy survives the validation, \<open>Run\<close> returns an error and the process
  exits with status 1.  The result and the final state of the world are the same for
  every implementation of the filter stage: the stage is not invoked.
\<close>

theorem C8_no_survivors_abort:
  assumes "prepareProxies env w = (Inr (proxyInput, apiKey, strictnessLevel), w1)"
    and "validate_loop env proxyInput [] w1 = Some ([], w2)"
  shows "\<exists>err w3. Run env w = Some (Some err, w3) \<and> main env w = Some (1, w3)
     \<and> (\<forall>riskFilter. Run_with riskFilter env w = Some (Some err, w3)
          \<and> main_with riskFilter env w = Some (1, w3))"
proof -
  obtain r w3 where s: "saveProxiesToFile env w2 [] ValidProxiesFileName = (r, w3)"
    by (cases "saveProxiesToFile env w2 [] ValidProxiesFileName")
  show ?thesis
  proof (cases r)
    case None
    with assms s have "\<forall>riskFilter. Run_with riskFilter env w = Some (Some NoValidProxies, w3)"
      by (simp add: Run_with_def ValidateAndSaveProxies_def)
    then show ?thesis by (simp add: Run_def main_def main_with_def exit_status_def)
  next
    case (Some e)
    with assms s have "\<forall>riskFilter. Run_with riskFilter env w = Some (Some (SaveFailed e), w3)"
      by (simp add: Run_with_def ValidateAndSaveProxies_def)
    then show ?thesis by (simp add: Run_def main_def main_with_def exit_status_def)
  qed
qed

theorem C8_no_survivors_abort_witness:
  "prepareProxies (sample_env\<lparr>client_Do := (\<lambda>w via url. (DoError, Suc w))\<rparr>) 0
     = (Inr ([''1.1.1.1:8080'', ''bad::::format''], ''secret'', ''0''), 0)
   \<and> validate_loop (sample_env\<lparr>client_Do := (\<lambda>w via url. (DoError, Suc w))\<rparr>)
        [''1.1.1.1:8080'', ''bad::::format''] [] 0 = Some ([], 1)
   \<and> Run (sample_env\<lparr>client_Do := (\<lambda>w via url. (DoError, Suc w))\<rparr>) 0
     = Some (Some NoValidProxies, 1)
   \<and> main (sample_env\<lparr>client_Do := (\<lambda>w via url. (DoError, Suc w))\<rparr>) 0 = Some (1, 1)"
proof -
  let ?e = "sample_env\<lparr>client_Do := (\<lambda>w via url. (DoError, Suc w))\<rparr>"
  have 1: "prepareProxies ?e 0
      = (Inr ([''1.1.1.1:8080'', ''bad::::format''], ''secret'', ''0''), 0)"
    by code_simp
  have 2: "validate_loop ?e [''1.1.1.1:8080'', ''bad::::format''] [] 0 = Some ([], 1)"
    by code_simp
  have 3: "Run ?e 0 = Some (Some NoValidProxies, 1)" by code_simp
  from C8_no_survivors_abort[OF 1 2] obtain err w3
    where "Run ?e 0 = Some (Some err, w3)" "main ?e 0 = Some (1, w3)" by blast
  with 3 have "main ?e 0 = Some (1, 1)" by simp
  with 1 2 3 show ?thesis by blast
qed

text \<open>
  C9: when the reputation service answers with status 200 and a JSON document that has
  \<open>success\<close> true and no \<open>fraud_score\<close> field, \<open>CheckIPRiskScore\<close> returns 0, the zero
  value of the field, and \<open>FilterProxies\<close> keeps the proxy.
\<close>

theorem C9_missing_score_is_clean:
  assumes "GetOutboundIP env w proxy = Some (ip, w1)" and "ip \<noteq> ''''"
    and "NewRequest_ok env (IPQSEndpoint apiKey ip strictnessLevel)"
    and "client_Do env w1 None (IPQSEndpoint apiKey ip strictnessLevel)
           = (Response StatusOK (Body text), w2)"
    and "Unmarshal_ipqs env text = Some r"
    and "Success r = Some True" and "FraudScore r = None"
  shows "CheckIPRiskScore env w1 ip apiKey strictnessLevel = (0, w2)
     \<and> (\<exists>kept w'. FilterProxies env w2 rest apiKey strictnessLevel = Some (kept, w')
           \<and> FilterProxies env w (proxy # rest) apiKey strictnessLevel
               = Some (proxy # kept, w'))"
proof -
  from assms(3-7) have c: "CheckIPRiskScore env w1 ip apiKey strictnessLevel = (0, w2)"
    by (simp add: CheckIPRiskScore_def zero_bool_def zero_int_def)
  from FilterProxies_loop_acc[of env apiKey strictnessLevel rest w2 "[proxy]"]
  obtain kept w' where k: "FilterProxies_loop env apiKey strictnessLevel rest [] w2 = Some (kept, w')"
      "FilterProxies_loop env apiKey strictnessLevel rest [proxy] w2 = Some (proxy # kept, w')"
    by auto
  from assms(1,2) c k show ?thesis by (simp add: FilterProxies_def)
qed

theorem C9_missing_score_is_clean_witness:
  "GetOutboundIP sample_env 0 ''1.1.1.1:8080'' = Some (''203.0.113.7'', 1)
   \<and> Unmarshal_ipqs sample_env ''{}'' = Some \<lparr>Success = Some True, Message = None, FraudScore = None\<rparr>
   \<and> CheckIPRiskScore sample_env 1 ''203.0.113.7'' ''secret'' ''0'' = (0, 2)
   \<and> FilterProxies sample_env 0 [''1.1.1.1:8080''] ''secret'' ''0'' = Some ([''1.1.1.1:8080''], 2)"
proof -
  let ?r = "\<lparr>Success = Some True, Message = None, FraudScore = None\<rparr>"
  have 1: "GetOutboundIP sample_env 0 ''1.1.1.1:8080'' = Some (''203.0.113.7'', 1)"
    by code_simp
  have 2: "''203.0.113.7'' \<noteq> ''''" by simp
  have 3: "NewRequest_ok sample_env (IPQSEndpoint ''secret'' ''203.0.113.7'' ''0'')"
    by (simp add: sample_env_def)
  have 4: "client_Do sample_env 1 None (IPQSEndpoint ''secret'' ''203.0.113.7'' ''0'')
      = (Response StatusOK (Body ''{}''), 2)"
    by (simp add: sample_env_def StatusOK_def)
  have 5: "Unmarshal_ipqs sample_env ''{}'' = Some ?r" by (simp add: sample_env_def)
  have 6: "Success ?r = Some True" "FraudScore ?r = None" by simp_all
  have 7: "FilterProxies sample_env 2 [] ''secret'' ''0'' = Some ([], 2)"
    by (simp add: FilterProxies_def)
  from C9_missing_score_is_clean[OF 1 2 3 4 5 6, of "[]"] 7 1 5 show ?thesis by auto
qed

text \<open>
  C10: protocol keywords are matched case-sensitively.  No string that starts with
  \<open>HTTP\<close> is matched by one of the three patterns with a protocol keyword, and
  \<open>HTTP://host:8080\<close> is split at the colons into three fields, read as host \<open>HTTP\<close>,
  port \<open>//host\<close> and user \<open>8080\<close>, with the default protocol \<open>http\<close>.  In general,
  when the trimmed input does not start with \<open>http\<close> or \<open>socks5\<close> in lower case, none
  of the three patterns matches, nothing is cut off, and the protocol of the result is
  empty or the default.  And for every first field \<open>K\<close> that is not one of the three
  lower-case keywords, \<open>K://h:p\<close> is read as host \<open>K\<close>, port \<open>//h\<close> and user \<open>p\<close>.
\<close>

theorem C10_uppercase_protocol:
  "FindStringSubmatch protocolWithAuthPattern (''HTTP'' @ r) = None
   \<and> FindStringSubmatch protocolNoAuthPattern (''HTTP'' @ r) = None
   \<and> FindStringSubmatch protocolPrefix (''HTTP'' @ r) = None
   \<and> FindStringSubmatch userPassHostPattern ''HTTP://host:8080'' = None
   \<and> Split ''HTTP://host:8080'' CHR '':'' = [''HTTP'', ''//host'', ''8080'']
   \<and> ParseProxy ''HTTP://host:8080'' =
       Some \<lparr>host = ''HTTP'', port = ''//host'', user = ''8080'', password = '''',
             protocol = ''http''\<rparr>
   \<and> (\<not> prefix ''http'' (TrimSpace s) \<and> \<not> prefix ''socks5'' (TrimSpace s) \<longrightarrow>
        FindStringSubmatch protocolWithAuthPattern (TrimSpace s) = None
        \<and> FindStringSubmatch protocolNoAuthPattern (TrimSpace s) = None
        \<and> FindStringSubmatch protocolPrefix (TrimSpace s) = None
        \<and> strip_protocol (TrimSpace s) = Some ('''', TrimSpace s)
        \<and> (FindStringSubmatch userPassHostPattern (TrimSpace s) = None \<longrightarrow>
              ParseProxy s = switch_parts '''' (Split (TrimSpace s) CHR '':''))
        \<and> (\<exists>d. ParseProxy s = Some d \<and> (protocol d = '''' \<or> protocol d = ''http'')))
   \<and> (CHR '':'' \<notin> set K \<and> K \<notin> set protocols \<and> leading_space K = 0
        \<and> CHR '':'' \<notin> set h \<and> CHR ''@'' \<notin> set h
        \<and> CHR '':'' \<notin> set p \<and> trailing_space p = 0 \<longrightarrow>
        ParseProxy (K @ ''://'' @ h @ '':'' @ p) =
          Some \<lparr>host = K, port = ''//'' @ h, user = p, password = '''', protocol = ''http''\<rparr>)"
proof (intro conjI impI)
  show "FindStringSubmatch protocolWithAuthPattern (''HTTP'' @ r) = None"
    by (simp add: protocolWithAuthPattern_def protocols_def rmatch_CapAlt)
  show "FindStringSubmatch protocolNoAuthPattern (''HTTP'' @ r) = None"
    by (simp add: protocolNoAuthPattern_def protocols_def rmatch_CapAlt)
  show "FindStringSubmatch protocolPrefix (''HTTP'' @ r) = None"
    by (simp add: protocolPrefix_def protocols_def rmatch_CapAlt)
  show "FindStringSubmatch userPassHostPattern ''HTTP://host:8080'' = None"
    by code_simp
  show "Split ''HTTP://host:8080'' CHR '':'' = [''HTTP'', ''//host'', ''8080'']"
    by code_simp
  show "ParseProxy ''HTTP://host:8080'' =
       Some \<lparr>host = ''HTTP'', port = ''//host'', user = ''8080'', password = '''',
             protocol = ''http''\<rparr>"
    by code_simp
next
  assume a: "\<not> prefix ''http'' (TrimSpace s) \<and> \<not> prefix ''socks5'' (TrimSpace s)"
  then have n: "\<not> prefix ''http'' (TrimSpace s)" "\<not> prefix ''socks5'' (TrimSpace s)"
    by blast+
  note k = keyword_patterns_need_lower_case[OF n]
  show "FindStringSubmatch protocolWithAuthPattern (TrimSpace s) = None"
    using k(1) by simp
  show "FindStringSubmatch protocolNoAuthPattern (TrimSpace s) = None"
    using k(2) by simp
  show "FindStringSubmatch protocolPrefix (TrimSpace s) = None"
    using k(3) by simp
  show "strip_protocol (TrimSpace s) = Some ('''', TrimSpace s)"
    using n by (rule no_lower_case_keyword(1))
  show "\<exists>d. ParseProxy s = Some d \<and> (protocol d = '''' \<or> protocol d = ''http'')"
    using n by (rule no_lower_case_keyword(3))
  assume "FindStringSubmatch userPassHostPattern (TrimSpace s) = None"
  then have "rmatch userPassHostPattern (TrimSpace s) = None" by simp
  with n show "ParseProxy s = switch_parts '''' (Split (TrimSpace s) CHR '':'')"
    by (rule no_lower_case_keyword(2))
next
  assume "CHR '':'' \<notin> set K \<and> K \<notin> set protocols \<and> leading_space K = 0
        \<and> CHR '':'' \<notin> set h \<and> CHR ''@'' \<notin> set h
        \<and> CHR '':'' \<notin> set p \<and> trailing_space p = 0"
  then have "CHR '':'' \<notin> set K" "K \<notin> set protocols" "leading_space K = 0"
      "CHR '':'' \<notin> set h" "CHR ''@'' \<notin> set h" "CHR '':'' \<notin> set p" "trailing_space p = 0"
    by blast+
  then show "ParseProxy (K @ ''://'' @ h @ '':'' @ p) =
      Some \<lparr>host = K, port = ''//'' @ h, user = p, password = '''', protocol = ''http''\<rparr>"
    by (rule other_first_field)
qed

theorem C10_uppercase_protocol_witness:
  "\<not> prefix ''http'' (TrimSpace ''SOCKS5://host:8080'')
   \<and> \<not> prefix ''socks5'' (TrimSpace ''SOCKS5://host:8080'')
   \<and> FindStringSubmatch protocolPrefix (TrimSpace ''SOCKS5://host:8080'') = None
   \<and> ParseProxy ''SOCKS5://host:8080'' =
       switch_parts '''' (Split (TrimSpace ''SOCKS5://host:8080'') CHR '':'')
   \<and> ParseProxy (''Https'' @ ''://'' @ ''proxy'' @ '':'' @ ''1080'') =
       Some \<lparr>host = ''Https'', port = ''//'' @ ''proxy'', user = ''1080'', password = '''',
             protocol = ''http''\<rparr>"
proof -
  have 1: "\<not> prefix ''http'' (TrimSpace ''SOCKS5://host:8080'')
      \<and> \<not> prefix ''socks5'' (TrimSpace ''SOCKS5://host:8080'')"
    by code_simp
  have 2: "FindStringSubmatch userPassHostPattern (TrimSpace ''SOCKS5://host:8080'') = None"
    by code_simp
  have "leading_space ''Https'' = 0" "trailing_space ''1080'' = 0" by code_simp+
  then have 3: "CHR '':'' \<notin> set ''Https'' \<and> ''Https'' \<notin> set protocols
      \<and> leading_space ''Https'' = 0
      \<and> CHR '':'' \<notin> set ''proxy'' \<and> CHR ''@'' \<notin> set ''proxy''
      \<and> CHR '':'' \<notin> set ''1080'' \<and> trailing_space ''1080'' = 0"
    by (simp add: protocols_def)
  note t = C10_uppercase_protocol[where s = "''SOCKS5://host:8080''" and K = "''Https''"
      and h = "''proxy''" and p = "''1080''"]
  from t 1 2 have 4: "FindStringSubmatch protocolPrefix (TrimSpace ''SOCKS5://host:8080'') = None"
      "ParseProxy ''SOCKS5://host:8080'' =
        switch_parts '''' (Split (TrimSpace ''SOCKS5://host:8080'') CHR '':'')"
    by blast+
  from t 3 have 5: "ParseProxy (''Https'' @ ''://'' @ ''proxy'' @ '':'' @ ''1080'') =
       Some \<lparr>host = ''Https'', port = ''//'' @ ''proxy'', user = ''1080'', password = '''',
             protocol = ''http''\<rparr>"
    by blast
  from 1 4 5 show ?thesis by blast
qed

end
